theory Spec2Isabelle
  imports Complex_Main "HOL-Library.Multiset" "HOL-Library.AList" "HOL-Library.Sublist"
begin

section \<open>Python values and the object store\<close>

text \<open>
  A Python \<open>str\<close> is a sequence of Unicode code points. Code points are natural numbers;
  \<open>ustr\<close> turns an ASCII literal into its code points.
\<close>

type_synonym codepoint = nat
type_synonym ustring = "codepoint list"

definition ustr :: "string \<Rightarrow> ustring" where
  "ustr s = map of_char s"

text \<open>
  Mutable objects (dicts and lists) live in a store and are reached through references, so
  that a copy and an alias can be told apart. Immutable values are held directly. An address
  is an index into the store; allocation appends.
\<close>

type_synonym addr = nat

datatype pyval = VNone | VBool bool | VInt int | VStr ustring | VRef addr

datatype pyobj = ODict "(ustring \<times> pyval) list" | OList "pyval list"

type_synonym heap = "pyobj list"

text \<open>
  Exceptions are values. \<open>Unsupported\<close> is not a Python exception: it marks an argument of
  \<open>deepcopy\<close> that is not a finite tree in the store (a dangling or cyclic reference), which
  this model does not cover.
\<close>

datatype py_error = TypeError | AttributeError | RuntimeError ustring | Unsupported

text \<open>
  \<open>dict(value)\<close>: a new dict object holding the entries of \<open>value\<close>; the values of the
  entries are shared, not copied. Both modules annotate the argument as a dict; anything
  else is a \<open>TypeError\<close> here.
\<close>

definition dict_copy :: "heap \<Rightarrow> pyval \<Rightarrow> py_error + (heap \<times> pyval)" where
  "dict_copy h v =
     (case v of
        VRef a \<Rightarrow>
          (if a < length h then
             (case h ! a of
                ODict kvs \<Rightarrow> Inr (h @ [ODict kvs], VRef (length h))
              | OList xs \<Rightarrow> Inl TypeError)
           else Inl TypeError)
      | _ \<Rightarrow> Inl TypeError)"

section \<open>ph.py: the upstream-record cache\<close>

text \<open>
  \<open>_CACHE\<close> is an \<open>OrderedDict\<close> from key to \<open>(ts, data)\<close>: an association list with
  distinct keys, oldest position first. Times are the values of \<open>time.time()\<close>, taken as
  an argument of each operation.
\<close>

type_synonym ph_cache = "(ustring \<times> (real \<times> pyval)) list"

definition od_pop :: "'k \<Rightarrow> ('k \<times> 'v) list \<Rightarrow> ('k \<times> 'v) list" where
  "od_pop key c = filter (\<lambda>kv. fst kv \<noteq> key) c"

definition od_move_to_end :: "'k \<Rightarrow> ('k \<times> 'v) list \<Rightarrow> ('k \<times> 'v) list" where
  "od_move_to_end key c =
     (case map_of c key of
        None \<Rightarrow> c
      | Some v \<Rightarrow> od_pop key c @ [(key, v)])"

definition ph_purge_expired :: "real \<Rightarrow> real \<Rightarrow> ph_cache \<Rightarrow> ph_cache" where
  "ph_purge_expired CACHE_TTL now c =
     (if CACHE_TTL \<le> 0 then []
      else
        (let expired = map fst (filter (\<lambda>(key, (ts, _)). now - ts > CACHE_TTL) c)
         in fold od_pop expired c))"

definition ph_cache_get ::
  "real \<Rightarrow> real \<Rightarrow> heap \<times> ph_cache \<Rightarrow> ustring \<Rightarrow> py_error + (pyval \<times> heap \<times> ph_cache)" where
  "ph_cache_get CACHE_TTL now st key =
     (if CACHE_TTL \<le> 0 then Inr (VNone, st)
      else
        (let c1 = ph_purge_expired CACHE_TTL now (snd st) in
         case map_of c1 key of
           None \<Rightarrow> Inr (VNone, fst st, c1)
         | Some item \<Rightarrow>
             (case dict_copy (fst st) (snd item) of
                Inl e \<Rightarrow> Inl e
              | Inr (h', r) \<Rightarrow> Inr (r, h', od_move_to_end key c1))))"

text \<open>\<open>while len(_CACHE) > CACHE_MAX > 0: _CACHE.popitem(last=False)\<close>\<close>

function ph_evict :: "int \<Rightarrow> ph_cache \<Rightarrow> ph_cache" where
  "ph_evict CACHE_MAX c =
     (if int (length c) > CACHE_MAX \<and> CACHE_MAX > 0 then ph_evict CACHE_MAX (tl c) else c)"
  by pat_completeness auto
termination
  by (relation "measure (\<lambda>(m, c). length c)") auto

declare ph_evict.simps [simp del]

text \<open>
  \<open>_cache_set\<close> up to, and not including, its eviction loop: purge, store the copy, move
  the key to the end.
\<close>

definition ph_cache_store ::
  "real \<Rightarrow> real \<Rightarrow> heap \<times> ph_cache \<Rightarrow> ustring \<Rightarrow> pyval \<Rightarrow> py_error + (heap \<times> ph_cache)" where
  "ph_cache_store CACHE_TTL now st key v =
     (let c1 = ph_purge_expired CACHE_TTL now (snd st) in
      case dict_copy (fst st) v of
        Inl e \<Rightarrow> Inl e
      | Inr (h', d) \<Rightarrow>
          (let c2 = AList.update key (now, d) c1;
               c3 = od_move_to_end key c2
           in Inr (h', c3)))"

definition ph_cache_set ::
  "real \<Rightarrow> int \<Rightarrow> real \<Rightarrow> heap \<times> ph_cache \<Rightarrow> ustring \<Rightarrow> pyval \<Rightarrow> py_error + (heap \<times> ph_cache)" where
  "ph_cache_set CACHE_TTL CACHE_MAX now st key v =
     (if CACHE_TTL \<le> 0 then Inr st
      else
        (case ph_cache_store CACHE_TTL now st key v of
           Inl e \<Rightarrow> Inl e
         | Inr (h', c3) \<Rightarrow> Inr (h', ph_evict CACHE_MAX c3)))"

section \<open>Deep copies\<close>

text \<open>
  The structure a value denotes in a store: what \<open>==\<close> compares. \<open>reify n h v\<close> reads it
  following at most \<open>n\<close> nested references; it is \<open>None\<close> on a dangling reference and
  when the nesting is deeper than \<open>n\<close>.
\<close>

datatype tree = Leaf pyval | NodeL "tree list" | NodeD "(ustring \<times> tree) list"

fun reify :: "nat \<Rightarrow> heap \<Rightarrow> pyval \<Rightarrow> tree option"
  and reify_list :: "nat \<Rightarrow> heap \<Rightarrow> pyval list \<Rightarrow> tree list option"
  and reify_items :: "nat \<Rightarrow> heap \<Rightarrow> (ustring \<times> pyval) list \<Rightarrow> (ustring \<times> tree) list option"
  where
  "reify n h (VRef a) =
     (case n of
        0 \<Rightarrow> None
      | Suc m \<Rightarrow>
          (if a < length h then
             (case h ! a of
                OList xs \<Rightarrow> map_option NodeL (reify_list m h xs)
              | ODict kvs \<Rightarrow> map_option NodeD (reify_items m h kvs))
           else None))"
| "reify n h VNone = Some (Leaf VNone)"
| "reify n h (VBool b) = Some (Leaf (VBool b))"
| "reify n h (VInt i) = Some (Leaf (VInt i))"
| "reify n h (VStr s) = Some (Leaf (VStr s))"
| "reify_list n h [] = Some []"
| "reify_list n h (v # vs) =
     (case reify n h v of
        None \<Rightarrow> None
      | Some t \<Rightarrow> map_option ((#) t) (reify_list n h vs))"
| "reify_items n h [] = Some []"
| "reify_items n h (kv # kvs) =
     (case reify n h (snd kv) of
        None \<Rightarrow> None
      | Some t \<Rightarrow> map_option ((#) (fst kv, t)) (reify_items n h kvs))"

text \<open>Allocating a fresh copy of a structure: children first, then the container.\<close>

fun build :: "tree \<Rightarrow> heap \<Rightarrow> heap \<times> pyval"
  and build_list :: "tree list \<Rightarrow> heap \<Rightarrow> heap \<times> pyval list"
  and build_items :: "(ustring \<times> tree) list \<Rightarrow> heap \<Rightarrow> heap \<times> (ustring \<times> pyval) list"
  where
  "build (Leaf v) h = (h, v)"
| "build (NodeL ts) h =
     (case build_list ts h of (h', vs) \<Rightarrow> (h' @ [OList vs], VRef (length h')))"
| "build (NodeD kts) h =
     (case build_items kts h of (h', kvs) \<Rightarrow> (h' @ [ODict kvs], VRef (length h')))"
| "build_list [] h = (h, [])"
| "build_list (t # ts) h =
     (case build t h of (h1, v) \<Rightarrow>
        (case build_list ts h1 of (h2, vs) \<Rightarrow> (h2, v # vs)))"
| "build_items [] h = (h, [])"
| "build_items (kt # kts) h =
     (case build (snd kt) h of (h1, v) \<Rightarrow>
        (case build_items kts h1 of (h2, kvs) \<Rightarrow> (h2, (fst kt, v) # kvs)))"

text \<open>
  \<open>copy.deepcopy(value)\<close> on a value that is a finite tree in the store: strings, numbers,
  booleans and \<open>None\<close> are returned as they are, a list or dict is rebuilt from copies of
  its elements. Every object of a store of \<open>length h\<close> objects is read within \<open>length h\<close>
  nested references unless a reference cycle is followed.
\<close>

definition deepcopy :: "heap \<Rightarrow> pyval \<Rightarrow> py_error + (heap \<times> pyval)" where
  "deepcopy h v =
     (case reify (length h) h v of
        None \<Rightarrow> Inl Unsupported
      | Some t \<Rightarrow> Inr (build t h))"

section \<open>Regions of the store\<close>

text \<open>
  \<open>agree lo hi h h'\<close>: the store \<open>h'\<close> holds, at the addresses from \<open>lo\<close> up to \<open>hi\<close>, the
  objects \<open>h\<close> holds there. Whatever a caller does to objects outside that range leaves
  the two stores in agreement on it.
\<close>

definition agree :: "nat \<Rightarrow> nat \<Rightarrow> heap \<Rightarrow> heap \<Rightarrow> bool" where
  "agree lo hi h h' \<longleftrightarrow> hi \<le> length h \<and> hi \<le> length h' \<and> (\<forall>a. lo \<le> a \<and> a < hi \<longrightarrow> h' ! a = h ! a)"

definition atom :: "pyval \<Rightarrow> bool" where
  "atom v = (case v of VRef a \<Rightarrow> False | _ \<Rightarrow> True)"

text \<open>The number of containers of a structure, and structures whose leaves are not references.\<close>

fun nodes :: "tree \<Rightarrow> nat"
  and nodes_list :: "tree list \<Rightarrow> nat"
  and nodes_items :: "(ustring \<times> tree) list \<Rightarrow> nat"
  where
  "nodes (Leaf v) = 0"
| "nodes (NodeL ts) = Suc (nodes_list ts)"
| "nodes (NodeD kts) = Suc (nodes_items kts)"
| "nodes_list [] = 0"
| "nodes_list (t # ts) = nodes t + nodes_list ts"
| "nodes_items [] = 0"
| "nodes_items (kt # kts) = nodes (snd kt) + nodes_items kts"

fun wf_tree :: "tree \<Rightarrow> bool"
  and wf_list :: "tree list \<Rightarrow> bool"
  and wf_items :: "(ustring \<times> tree) list \<Rightarrow> bool"
  where
  "wf_tree (Leaf v) = atom v"
| "wf_tree (NodeL ts) = wf_list ts"
| "wf_tree (NodeD kts) = wf_items kts"
| "wf_list [] = True"
| "wf_list (t # ts) = (wf_tree t \<and> wf_list ts)"
| "wf_items [] = True"
| "wf_items (kt # kts) = (wf_tree (snd kt) \<and> wf_items kts)"

text \<open>
  The addresses of the objects a value reaches in a store, following at most \<open>n\<close> nested
  references: the objects a caller holding the value can mutate through it.
\<close>

fun addrs :: "nat \<Rightarrow> heap \<Rightarrow> pyval \<Rightarrow> addr list"
  and addrs_list :: "nat \<Rightarrow> heap \<Rightarrow> pyval list \<Rightarrow> addr list"
  and addrs_items :: "nat \<Rightarrow> heap \<Rightarrow> (ustring \<times> pyval) list \<Rightarrow> addr list"
  where
  "addrs n h (VRef a) =
     (case n of
        0 \<Rightarrow> [a]
      | Suc m \<Rightarrow>
          (if a < length h then
             (case h ! a of
                OList xs \<Rightarrow> a # addrs_list m h xs
              | ODict kvs \<Rightarrow> a # addrs_items m h kvs)
           else [a]))"
| "addrs n h VNone = []"
| "addrs n h (VBool b) = []"
| "addrs n h (VInt i) = []"
| "addrs n h (VStr s) = []"
| "addrs_list n h [] = []"
| "addrs_list n h (v # vs) = addrs n h v @ addrs_list n h vs"
| "addrs_items n h [] = []"
| "addrs_items n h (kv # kvs) = addrs n h (snd kv) @ addrs_items n h kvs"

section \<open>tv.py: the tabular-source cache\<close>

text \<open>\<open>_sheet_cache\<close> is a plain dict from key to \<open>(ts, value)\<close>.\<close>

type_synonym tv_cache = "(ustring \<times> (real \<times> pyval)) list"

definition tv_cache_get ::
  "real \<Rightarrow> real \<Rightarrow> heap \<times> tv_cache \<Rightarrow> ustring \<Rightarrow> py_error + (pyval \<times> heap \<times> tv_cache)" where
  "tv_cache_get SHEET_CACHE_TTL now st key =
     (if SHEET_CACHE_TTL \<le> 0 then Inr (VNone, st)
      else
        (case map_of (snd st) key of
           None \<Rightarrow> Inr (VNone, st)
         | Some entry \<Rightarrow>
             (if now - fst entry > SHEET_CACHE_TTL
              then Inr (VNone, fst st, od_pop key (snd st))
              else
                (case deepcopy (fst st) (snd entry) of
                   Inl e \<Rightarrow> Inl e
                 | Inr (h', r) \<Rightarrow> Inr (r, h', snd st)))))"

definition tv_cache_set ::
  "real \<Rightarrow> real \<Rightarrow> heap \<times> tv_cache \<Rightarrow> ustring \<Rightarrow> pyval \<Rightarrow> py_error + (heap \<times> tv_cache)" where
  "tv_cache_set SHEET_CACHE_TTL now st key v =
     (if SHEET_CACHE_TTL \<le> 0 then Inr st
      else
        (case deepcopy (fst st) v of
           Inl e \<Rightarrow> Inl e
         | Inr (h', d) \<Rightarrow> Inr (h', AList.update key (now, d) (snd st))))"

definition tv_cache_clear :: "heap \<times> tv_cache \<Rightarrow> heap \<times> tv_cache" where
  "tv_cache_clear st = (fst st, [])"

section \<open>Sequences of cache operations\<close>

text \<open>
  A run of the upstream-record cache: each operation carries the value of \<open>time.time()\<close>
  it observes. Beside the cache, a run records for every key the number of the last
  operation that touched it (a \<open>_cache_set\<close> of the key, or a \<open>_cache_get\<close> of the key that
  hit); the code keeps no such record, it is what the eviction order is compared with.
\<close>

datatype cache_op = Get ustring real | Set ustring pyval real

record ph_trace =
  store :: "heap \<times> ph_cache"
  touched :: "ustring \<Rightarrow> nat"
  clock :: nat

fun ph_step :: "real \<Rightarrow> int \<Rightarrow> ph_trace \<Rightarrow> cache_op \<Rightarrow> py_error + ph_trace" where
  "ph_step CACHE_TTL CACHE_MAX g (Get key now) =
     (case ph_cache_get CACHE_TTL now (store g) key of
        Inl e \<Rightarrow> Inl e
      | Inr (r, st') \<Rightarrow>
          Inr \<lparr>store = st',
               touched = (if r = VNone then touched g else (touched g)(key := clock g)),
               clock = Suc (clock g)\<rparr>)"
| "ph_step CACHE_TTL CACHE_MAX g (Set key v now) =
     (case ph_cache_set CACHE_TTL CACHE_MAX now (store g) key v of
        Inl e \<Rightarrow> Inl e
      | Inr st' \<Rightarrow>
          Inr \<lparr>store = st', touched = (touched g)(key := clock g), clock = Suc (clock g)\<rparr>)"

fun ph_run :: "real \<Rightarrow> int \<Rightarrow> ph_trace \<Rightarrow> cache_op list \<Rightarrow> py_error + ph_trace" where
  "ph_run CACHE_TTL CACHE_MAX g [] = Inr g"
| "ph_run CACHE_TTL CACHE_MAX g (x # xs) =
     (case ph_step CACHE_TTL CACHE_MAX g x of
        Inl e \<Rightarrow> Inl e
      | Inr g' \<Rightarrow> ph_run CACHE_TTL CACHE_MAX g' xs)"

definition ph_trace_init :: "heap \<Rightarrow> ph_trace" where
  "ph_trace_init h0 = \<lparr>store = (h0, []), touched = (\<lambda>_. 0), clock = 0\<rparr>"

text \<open>An entry is expired at \<open>now\<close> when its age exceeds the time to live.\<close>

definition no_expired :: "real \<Rightarrow> real \<Rightarrow> (ustring \<times> (real \<times> pyval)) list \<Rightarrow> bool" where
  "no_expired ttl now c = list_all (\<lambda>kv. \<not> (now - fst (snd kv) > ttl)) c"

text \<open>
  The order of the \<open>OrderedDict\<close> against the record of touches: keys are distinct and
  stand in the order in which they were last touched.
\<close>

definition lru_inv :: "ph_trace \<Rightarrow> bool" where
  "lru_inv g \<longleftrightarrow>
     distinct (map fst (snd (store g)))
   \<and> sorted_wrt (\<lambda>a b. touched g (fst a) < touched g (fst b)) (snd (store g))
   \<and> (\<forall>kv \<in> set (snd (store g)). touched g (fst kv) < clock g)"

section \<open>Text normalisation (ph.py and tv.py)\<close>

text \<open>
  The functions of Python's Unicode database the code calls: \<open>unicodedata.normalize("NFD", s)\<close>,
  \<open>unicodedata.category(c) == "Mn"\<close>, \<open>str.upper\<close>, \<open>str.lower\<close>, and the whitespace test behind
  \<open>str.strip()\<close> and the \<open>\s\<close> of \<open>re\<close>. Their tables are not part of the repository: they
  are a parameter of every function that uses them.
\<close>

record ucd =
  normalize_NFD :: "ustring \<Rightarrow> ustring"
  category_Mn :: "codepoint \<Rightarrow> bool"
  str_upper :: "ustring \<Rightarrow> ustring"
  str_lower :: "ustring \<Rightarrow> ustring"
  isspace :: "codepoint \<Rightarrow> bool"

definition strip :: "ucd \<Rightarrow> ustring \<Rightarrow> ustring" where
  "strip U s = rev (dropWhile (isspace U) (rev (dropWhile (isspace U) s)))"

text \<open>\<open>_norm\<close> of tv.py\<close>

definition tv_norm :: "ucd \<Rightarrow> ustring \<Rightarrow> ustring" where
  "tv_norm U v = strip U v"

definition strip_marks :: "ucd \<Rightarrow> ustring \<Rightarrow> ustring" where
  "strip_marks U v = filter (\<lambda>c. \<not> category_Mn U c) (normalize_NFD U v)"

text \<open>\<open>_normkey\<close>: the separators removed are whitespace, \<open>_\<close> (95) and \<open>-\<close> (45).\<close>

definition normkey :: "ucd \<Rightarrow> ustring \<Rightarrow> ustring" where
  "normkey U v =
     (if v = [] then []
      else filter (\<lambda>c. \<not> (isspace U c \<or> c = 95 \<or> c = 45)) (str_lower U (strip_marks U v)))"

text \<open>\<open>re.findall(r"[A-Z0-9]+", base)\<close>: the maximal runs, left to right.\<close>

definition is_AZ09 :: "codepoint \<Rightarrow> bool" where
  "is_AZ09 c \<longleftrightarrow> (65 \<le> c \<and> c \<le> 90) \<or> (48 \<le> c \<and> c \<le> 57)"

fun findall_runs :: "(codepoint \<Rightarrow> bool) \<Rightarrow> ustring \<Rightarrow> ustring \<Rightarrow> ustring list" where
  "findall_runs P cur [] = (if cur = [] then [] else [cur])"
| "findall_runs P cur (c # cs) =
     (if P c then findall_runs P (cur @ [c]) cs
      else (if cur = [] then [] else [cur]) @ findall_runs P [] cs)"

definition name_tokens :: "ucd \<Rightarrow> ustring \<Rightarrow> ustring list" where
  "name_tokens U v =
     (if v = [] then [] else findall_runs is_AZ09 [] (str_upper U (strip_marks U v)))"

text \<open>
  \<open>collections.Counter(tokens)\<close>: a dict from token to count, filled in one pass. Two
  counters are compared as dicts: same number of keys, and every key of the first has the
  same count in the second.
\<close>

definition Counter :: "'a list \<Rightarrow> ('a \<times> nat) list" where
  "Counter xs =
     fold (\<lambda>x c. AList.update x (case map_of c x of None \<Rightarrow> 1 | Some n \<Rightarrow> n + 1) c) xs []"

text \<open>The count a counter holds for a key, zero for a key it does not have.\<close>

definition cnt :: "('a \<times> nat) list \<Rightarrow> 'a \<Rightarrow> nat" where
  "cnt c k = (case map_of c k of None \<Rightarrow> 0 | Some m \<Rightarrow> m)"

definition dict_eq :: "('k \<times> 'v) list \<Rightarrow> ('k \<times> 'v) list \<Rightarrow> bool" where
  "dict_eq a b \<longleftrightarrow> length a = length b \<and> list_all (\<lambda>kv. map_of b (fst kv) = Some (snd kv)) a"

definition name_signature :: "ucd \<Rightarrow> ustring \<Rightarrow> (ustring \<times> nat) list" where
  "name_signature U v = (if v = [] then Counter [] else Counter (name_tokens U v))"

text \<open>\<open>str(n)\<close> for a natural number: its decimal digits.\<close>

function str_nat :: "nat \<Rightarrow> ustring" where
  "str_nat n = (if n < 10 then [48 + n] else str_nat (n div 10) @ [48 + n mod 10])"
  by pat_completeness auto
termination
  by (relation "measure id") auto

declare str_nat.simps [simp del]

section \<open>tv.py: reading the sheet\<close>

type_synonym grid = "ustring list list"
type_synonym row_dict = "(ustring \<times> ustring) list"

text \<open>
  The loop that picks the header row among \<open>values[:5]\<close>; \<open>header_index\<close> and
  \<open>best_nonempty\<close> are the loop's variables, \<open>idx\<close> the position of the row at hand.
\<close>

fun header_scan :: "ucd \<Rightarrow> nat \<Rightarrow> int \<Rightarrow> nat \<Rightarrow> grid \<Rightarrow> nat" where
  "header_scan U header_index best_nonempty idx [] = header_index"
| "header_scan U header_index best_nonempty idx (row # rows) =
     (let nonempty = int (length (filter (\<lambda>cell. tv_norm U cell \<noteq> []) row)) in
      if list_ex (\<lambda>cell. str_upper U (tv_norm U cell) = ustr ''CIC'') row then idx
      else if nonempty > best_nonempty then header_scan U idx nonempty (Suc idx) rows
      else header_scan U header_index best_nonempty (Suc idx) rows)"

definition pick_header_index :: "ucd \<Rightarrow> grid \<Rightarrow> nat" where
  "pick_header_index U values = header_scan U 0 (- 1) 0 (take 5 values)"

text \<open>The loop that names the columns; \<open>seen\<close> is its dict of counts.\<close>

fun make_headers :: "ucd \<Rightarrow> nat \<Rightarrow> (ustring \<rightharpoonup> nat) \<Rightarrow> ustring list \<Rightarrow> ustring list" where
  "make_headers U j seen [] = []"
| "make_headers U j seen (header # rest) =
     (let name = (if tv_norm U header \<noteq> [] then tv_norm U header
                  else ustr ''col_'' @ str_nat (j + 1))
      in case seen name of
           Some n \<Rightarrow>
             (name @ ustr ''_'' @ str_nat (n + 1))
               # make_headers U (Suc j) (seen(name \<mapsto> n + 1)) rest
         | None \<Rightarrow> name # make_headers U (Suc j) (seen(name \<mapsto> 1)) rest)"

text \<open>
  The dict comprehension that builds one record: a later column with the name of an
  earlier one overwrites its value.
\<close>

definition make_record :: "ucd \<Rightarrow> ustring list \<Rightarrow> ustring list \<Rightarrow> row_dict" where
  "make_record U headers row =
     fold (\<lambda>j d. AList.update (headers ! j) (if j < length row then tv_norm U (row ! j) else []) d)
       [0..<length headers] []"

text \<open>
  \<open>load_data_from_sheet\<close>, from the grid \<open>values\<close> it has obtained (from the cache or from
  the sheet) on.
\<close>

definition sheet_headers :: "ucd \<Rightarrow> grid \<Rightarrow> ustring list" where
  "sheet_headers U values = make_headers U 0 Map.empty (values ! pick_header_index U values)"

definition load_data_from_sheet :: "ucd \<Rightarrow> grid \<Rightarrow> row_dict list" where
  "load_data_from_sheet U values =
     (if values = [] then []
      else
        (let header_index = pick_header_index U values;
             headers = sheet_headers U values
         in map (make_record U headers)
              (filter (\<lambda>row. list_ex (\<lambda>cell. tv_norm U cell \<noteq> []) row)
                 (drop (header_index + 1) values))))"

definition dict_get :: "('k \<times> 'v) list \<Rightarrow> 'k \<Rightarrow> 'v \<Rightarrow> 'v" where
  "dict_get d k dflt = (case map_of d k of None \<Rightarrow> dflt | Some v \<Rightarrow> v)"

text \<open>\<open>_find_key\<close>: an exact match of a candidate first, then a prefix match.\<close>

definition find_key :: "ucd \<Rightarrow> row_dict \<Rightarrow> ustring list \<Rightarrow> ustring option" where
  "find_key U row candidates =
     (if row = [] then None
      else
        (let normalised = fold (\<lambda>key d. AList.update (normkey U key) key d) (map fst row) [];
             desired = map (normkey U) candidates
         in case find (\<lambda>cand. map_of normalised cand \<noteq> None) desired of
              Some cand \<Rightarrow> map_of normalised cand
            | None \<Rightarrow>
                (case find (\<lambda>p. prefix (fst p) (fst (snd p))) (List.product desired normalised) of
                   Some p \<Rightarrow> Some (snd (snd p))
                 | None \<Rightarrow> None)))"

definition get_abonado_num :: "ucd \<Rightarrow> row_dict \<Rightarrow> ustring" where
  "get_abonado_num U row =
     (case find_key U row [ustr ''Gigared'', ustr ''Abonado'', ustr ''Numero'', ustr ''Nro Abonado''] of
        None \<Rightarrow> []
      | Some key \<Rightarrow> if key = [] then [] else strip U (dict_get row key []))"

record match_result =
  match_abonado :: ustring
  match_row :: row_dict
  match_cic :: ustring
  match_usuario :: ustring

text \<open>The dict \<open>encontrar_abonado_por_nombre\<close> returns for the row it has matched.\<close>

definition match_de_fila :: "ucd \<Rightarrow> row_dict \<Rightarrow> match_result" where
  "match_de_fila U r =
     \<lparr>match_abonado = get_abonado_num U r,
      match_row = r,
      match_cic =
        (case find_key U r [ustr ''CIC''] of
           None \<Rightarrow> []
         | Some key_cic \<Rightarrow> if key_cic = [] then [] else strip U (dict_get r key_cic [])),
      match_usuario =
        (case find_key U r [ustr ''Usuario'', ustr ''Usuario GP'', ustr ''Usuario GigaredPlay'',
                            ustr ''User''] of
           None \<Rightarrow> []
         | Some key_usuario \<Rightarrow>
             if key_usuario = [] then [] else strip U (dict_get r key_usuario []))\<rparr>"

definition claves_nombre :: "ustring list" where
  "claves_nombre =
     [ustr ''Nombre'', ustr ''Razon Social'', ustr ''Razon_Social'', ustr ''Cliente'', ustr ''Titular'']"

text \<open>The loop of \<open>encontrar_abonado_por_nombre\<close> over the loaded rows.\<close>

fun encontrar_en_filas :: "ucd \<Rightarrow> (ustring \<times> nat) list \<Rightarrow> row_dict list \<Rightarrow> match_result option" where
  "encontrar_en_filas U signature_query [] = None"
| "encontrar_en_filas U signature_query (r # rows) =
     (case find_key U r claves_nombre of
        None \<Rightarrow> encontrar_en_filas U signature_query rows
      | Some key_nombre \<Rightarrow>
          if key_nombre = [] then encontrar_en_filas U signature_query rows
          else if dict_eq (name_signature U (dict_get r key_nombre [])) signature_query
          then Some (match_de_fila U r)
          else encontrar_en_filas U signature_query rows)"

definition encontrar_abonado_por_nombre :: "ucd \<Rightarrow> grid \<Rightarrow> ustring \<Rightarrow> match_result option" where
  "encontrar_abonado_por_nombre U values nombre_busqueda =
     encontrar_en_filas U (name_signature U nombre_busqueda) (load_data_from_sheet U values)"

text \<open>\<open>find_col_idx\<close> of \<open>obtener_usuario_cic_disponible\<close>; \<open>-1\<close> when no header matches.\<close>

definition find_col_idx :: "ucd \<Rightarrow> ustring list \<Rightarrow> ustring \<Rightarrow> int" where
  "find_col_idx U headers name =
     (let target = normkey U name in
      case find (\<lambda>index. normkey U (headers ! index) = target) [0..<length headers] of
        Some index \<Rightarrow> int index
      | None \<Rightarrow>
          (case find (\<lambda>index. prefix target (normkey U (headers ! index))) [0..<length headers] of
             Some index \<Rightarrow> int index
           | None \<Rightarrow> - 1))"

record available_credential =
  disp_usuario :: ustring
  disp_cic :: ustring
  disp_row_index :: nat

definition cell_at :: "ustring list \<Rightarrow> int \<Rightarrow> ustring" where
  "cell_at r idx = (if idx < int (length r) then r ! nat idx else [])"

definition registrado_no :: "ucd \<Rightarrow> ustring \<Rightarrow> bool" where
  "registrado_no U cell \<longleftrightarrow>
     str_lower U (strip U cell) \<in> set [ustr ''no'', ustr ''n'', ustr ''false'', ustr ''0'']"

text \<open>The scan \<open>for row_index in range(1, len(values))\<close>, from \<open>row_index\<close> on.\<close>

fun scan_disponible ::
  "ucd \<Rightarrow> int \<Rightarrow> int \<Rightarrow> int \<Rightarrow> nat \<Rightarrow> grid \<Rightarrow> available_credential option" where
  "scan_disponible U idx_cic idx_user idx_reg row_index [] = None"
| "scan_disponible U idx_cic idx_user idx_reg row_index (r # rows) =
     (if registrado_no U (cell_at r idx_reg)
         \<and> (strip U (cell_at r idx_user) \<noteq> [] \<or> strip U (cell_at r idx_cic) \<noteq> [])
      then Some \<lparr>disp_usuario = strip U (cell_at r idx_user),
                 disp_cic = strip U (cell_at r idx_cic),
                 disp_row_index = row_index + 1\<rparr>
      else scan_disponible U idx_cic idx_user idx_reg (Suc row_index) rows)"

definition obtener_usuario_cic_disponible :: "ucd \<Rightarrow> grid \<Rightarrow> available_credential option" where
  "obtener_usuario_cic_disponible U values =
     (if values = [] \<or> length values < 2 then None
      else
        (let headers = values ! 0;
             idx_cic = find_col_idx U headers (ustr ''CIC'');
             idx_user = find_col_idx U headers (ustr ''Usuario'');
             idx_reg = find_col_idx U headers (ustr ''Registrado'')
         in if min idx_cic (min idx_user idx_reg) < 0 then None
            else scan_disponible U idx_cic idx_user idx_reg 1 (drop 1 values)))"

section \<open>An excerpt of the Unicode tables\<close>

text \<open>
  The Unicode data the examples need: the canonical decompositions of the accented vowels,
  of \<open>n\<close> with tilde and of \<open>u\<close> with diaeresis (both cases); the combining diacritical
  marks U+0300 to U+036F, all of category \<open>Mn\<close>; the ASCII case mappings; the whitespace of
  ASCII and Latin-1. It agrees with Python's tables on strings made of ASCII characters, of
  the letters listed and of those marks, and leaves every other code point as it is.
\<close>

definition nfd_cp :: "codepoint \<Rightarrow> ustring" where
  "nfd_cp c =
     (if c = 193 then [65, 769] else if c = 201 then [69, 769] else if c = 205 then [73, 769]
      else if c = 211 then [79, 769] else if c = 218 then [85, 769] else if c = 209 then [78, 771]
      else if c = 220 then [85, 776]
      else if c = 225 then [97, 769] else if c = 233 then [101, 769] else if c = 237 then [105, 769]
      else if c = 243 then [111, 769] else if c = 250 then [117, 769] else if c = 241 then [110, 771]
      else if c = 252 then [117, 776]
      else [c])"

definition upper_cp :: "codepoint \<Rightarrow> codepoint" where
  "upper_cp c = (if 97 \<le> c \<and> c \<le> 122 then c - 32 else c)"

definition lower_cp :: "codepoint \<Rightarrow> codepoint" where
  "lower_cp c = (if 65 \<le> c \<and> c \<le> 90 then c + 32 else c)"

definition ucd_excerpt :: ucd where
  "ucd_excerpt =
     \<lparr>normalize_NFD = (\<lambda>s. concat (map nfd_cp s)),
      category_Mn = (\<lambda>c. 768 \<le> c \<and> c \<le> 879),
      str_upper = map upper_cp,
      str_lower = map lower_cp,
      isspace = (\<lambda>c. (9 \<le> c \<and> c \<le> 13) \<or> (28 \<le> c \<and> c \<le> 32) \<or> c = 133 \<or> c = 160)\<rparr>"

text \<open>
  The test \<open>obtener_usuario_cic_disponible\<close> applies to a data row: "Registrado" says no,
  and the user or the CIC cell is not blank.
\<close>

definition fila_disponible :: "ucd \<Rightarrow> int \<Rightarrow> int \<Rightarrow> int \<Rightarrow> ustring list \<Rightarrow> bool" where
  "fila_disponible U idx_cic idx_user idx_reg r \<longleftrightarrow>
     registrado_no U (cell_at r idx_reg)
     \<and> (strip U (cell_at r idx_user) \<noteq> [] \<or> strip U (cell_at r idx_cic) \<noteq> [])"

definition credencial :: "ucd \<Rightarrow> int \<Rightarrow> int \<Rightarrow> ustring list \<Rightarrow> nat \<Rightarrow> available_credential" where
  "credencial U idx_cic idx_user r n =
     \<lparr>disp_usuario = strip U (cell_at r idx_user), disp_cic = strip U (cell_at r idx_cic),
      disp_row_index = n\<rparr>"

text \<open>
  A name without alphanumeric characters: empty, or with no character of \<open>A-Z0-9\<close> left
  once its marks are removed and it is upper-cased. A row whose name column is found and
  holds such a name.
\<close>

definition sin_alfanumericos :: "ucd \<Rightarrow> ustring \<Rightarrow> bool" where
  "sin_alfanumericos U v \<longleftrightarrow> v = [] \<or> \<not> list_ex is_AZ09 (str_upper U (strip_marks U v))"

definition fila_sin_nombre :: "ucd \<Rightarrow> row_dict \<Rightarrow> bool" where
  "fila_sin_nombre U r \<longleftrightarrow>
     (case find_key U r claves_nombre of
        None \<Rightarrow> False
      | Some key_nombre \<Rightarrow> key_nombre \<noteq> [] \<and> sin_alfanumericos U (dict_get r key_nombre []))"

section \<open>main.py: composing the client record with the sheet\<close>

text \<open>The dict \<open>transformar_desde_masiva\<close> returns: a fixed set of keys.\<close>

record cliente =
  ID :: ustring
  Nombre :: ustring
  DNI :: ustring
  Mail :: ustring
  Contrasena :: ustring
  TV :: bool
  HBO :: bool
  Pack_Futbol :: bool
  Estado :: ustring
  EstadoCode :: ustring
  via :: ustring

text \<open>
  The keys \<open>api_cliente\<close> adds to it; \<open>fila_propuesta\<close> is set only when a credential is
  proposed.
\<close>

record respuesta = cliente +
  ya_tiene_usuario :: bool
  abonado_sheet :: ustring
  usuario_sheet :: ustring
  cic_sheet :: ustring
  AltaURL :: ustring
  UsuarioPropuesto :: ustring
  CICPropuesto :: ustring
  fila_propuesta :: "nat option"

text \<open>
  \<open>api_cliente\<close> from the point where \<open>data\<close> has been obtained. \<open>tv_loaded\<close> says whether
  the import of \<open>tv\<close> succeeded. Each of the two sheet functions reads the grid on its own
  (from the cache or from the sheet): \<open>hoja_match\<close> and \<open>hoja_disp\<close> are the grids they obtain,
  \<open>None\<close> when the read raises, which \<open>api_cliente\<close> catches.
\<close>

definition api_cliente ::
  "ucd \<Rightarrow> bool \<Rightarrow> grid option \<Rightarrow> grid option \<Rightarrow> ustring \<Rightarrow> cliente \<Rightarrow> respuesta" where
  "api_cliente U tv_loaded hoja_match hoja_disp alta_url data =
     (let match =
            (if tv_loaded then
               (case hoja_match of
                  None \<Rightarrow> None
                | Some values \<Rightarrow> encontrar_abonado_por_nombre U values (Nombre data))
             else None);
          ya = (match \<noteq> None);
          disp =
            (if \<not> ya \<and> tv_loaded then
               (case hoja_disp of
                  None \<Rightarrow> None
                | Some values \<Rightarrow> obtener_usuario_cic_disponible U values)
             else None)
      in cliente.extend data
           \<lparr>ya_tiene_usuario = ya,
            abonado_sheet = (case match of None \<Rightarrow> [] | Some m \<Rightarrow> match_abonado m),
            usuario_sheet = (case match of None \<Rightarrow> [] | Some m \<Rightarrow> match_usuario m),
            cic_sheet = (case match of None \<Rightarrow> [] | Some m \<Rightarrow> match_cic m),
            AltaURL = alta_url,
            UsuarioPropuesto = (case disp of None \<Rightarrow> [] | Some d \<Rightarrow> disp_usuario d),
            CICPropuesto = (case disp of None \<Rightarrow> [] | Some d \<Rightarrow> disp_cic d),
            fila_propuesta = map_option disp_row_index disp\<rparr>)"

section \<open>ph.py: the upstream lookup\<close>

text \<open>
  What \<open>json.loads\<close> yields. The keys of a parsed object are distinct. \<open>str(x)\<close> is given
  for strings, integers, booleans and \<open>None\<close>; for a float, a list or a dict it is the
  parameter \<open>R\<close> (Python's \<open>repr\<close>).
\<close>

datatype json =
  JNull | JBool bool | JInt int | JFloat real | JStr ustring
  | JList "json list" | JDict "(ustring \<times> json) list"

definition str_int :: "int \<Rightarrow> ustring" where
  "str_int i = (if i < 0 then 45 # str_nat (nat (- i)) else str_nat (nat i))"

definition py_str :: "(json \<Rightarrow> ustring) \<Rightarrow> json \<Rightarrow> ustring" where
  "py_str R j =
     (case j of
        JStr s \<Rightarrow> s
      | JInt i \<Rightarrow> str_int i
      | JBool b \<Rightarrow> (if b then ustr ''True'' else ustr ''False'')
      | JNull \<Rightarrow> ustr ''None''
      | _ \<Rightarrow> R j)"

text \<open>Truth value of a parsed value, as \<open>not x\<close> and \<open>x or y\<close> test it.\<close>

definition truthy :: "json \<Rightarrow> bool" where
  "truthy j =
     (case j of
        JNull \<Rightarrow> False
      | JBool b \<Rightarrow> b
      | JInt i \<Rightarrow> i \<noteq> 0
      | JFloat x \<Rightarrow> x \<noteq> 0
      | JStr s \<Rightarrow> s \<noteq> []
      | JList xs \<Rightarrow> xs \<noteq> []
      | JDict kvs \<Rightarrow> kvs \<noteq> [])"

definition py_or :: "json \<Rightarrow> json \<Rightarrow> json" where
  "py_or a b = (if truthy a then a else b)"

definition is_dict :: "json \<Rightarrow> bool" where
  "is_dict j = (case j of JDict kvs \<Rightarrow> True | _ \<Rightarrow> False)"

text \<open>\<open>isinstance(v, (str, int, float))\<close>; a \<open>bool\<close> is an \<open>int\<close>.\<close>

definition is_scalar :: "json \<Rightarrow> bool" where
  "is_scalar j =
     (case j of JStr s \<Rightarrow> True | JInt i \<Rightarrow> True | JFloat x \<Rightarrow> True | JBool b \<Rightarrow> True | _ \<Rightarrow> False)"

text \<open>\<open>rec.get(key)\<close> on a parsed value that is a dict; \<open>None\<close> for a missing key.\<close>

definition json_get :: "json \<Rightarrow> ustring \<Rightarrow> json" where
  "json_get j key =
     (case j of
        JDict kvs \<Rightarrow> (case map_of kvs key of None \<Rightarrow> JNull | Some v \<Rightarrow> v)
      | _ \<Rightarrow> JNull)"

definition json_has :: "json \<Rightarrow> ustring \<Rightarrow> bool" where
  "json_has j key = (case j of JDict kvs \<Rightarrow> map_of kvs key \<noteq> None | _ \<Rightarrow> False)"

text \<open>
  One HTTP exchange: the request raises, or a response arrives with a status code and a
  body, of which \<open>_json\<close> makes a value or on which it raises \<open>ValueError\<close> (\<open>None\<close>). The
  upstream service answers each of the three ways of sending a payload.
\<close>

datatype http_method = PostJson | PostForm | GetQuery

datatype http_outcome = Raised | Response int "json option"

type_synonym payload = "(ustring \<times> json) list"
type_synonym upstream = "http_method \<Rightarrow> payload \<Rightarrow> http_outcome"

text \<open>
  \<open>_req_masiva\<close>: the loop over the three attempts. The \<open>try\<close> covers the request and
  \<open>_json(resp)\<close>; a status other than 200 falls through to the next attempt. \<open>None\<close> is
  \<open>JNull\<close>.
\<close>

fun req_attempts :: "upstream \<Rightarrow> payload \<Rightarrow> http_method list \<Rightarrow> json" where
  "req_attempts up p [] = JNull"
| "req_attempts up p (m # ms) =
     (case up m p of
        Raised \<Rightarrow> req_attempts up p ms
      | Response status_code body \<Rightarrow>
          (if status_code = 200 then
             (case body of
                None \<Rightarrow> req_attempts up p ms
              | Some j \<Rightarrow> j)
           else req_attempts up p ms))"

definition req_masiva :: "upstream \<Rightarrow> payload \<Rightarrow> json" where
  "req_masiva up p = req_attempts up p [PostJson, PostForm, GetQuery]"

definition record_keys :: "ustring list" where
  "record_keys =
     [ustr ''abonados'', ustr ''Abonados'', ustr ''data'', ustr ''Data'', ustr ''rows'',
      ustr ''items'', ustr ''result'']"

text \<open>\<open>_iter_records\<close>: the records it yields, in order.\<close>

definition iter_records :: "json \<Rightarrow> json list" where
  "iter_records data =
     (case data of
        JList items \<Rightarrow> filter is_dict items
      | JDict kvs \<Rightarrow>
          concat (map (\<lambda>key. case map_of kvs key of
                                 Some (JList arr) \<Rightarrow> filter is_dict arr
                               | _ \<Rightarrow> []) record_keys)
          @ (if list_ex is_scalar (map snd kvs) then [data] else [])
      | _ \<Rightarrow> [])"

definition rid :: "(json \<Rightarrow> ustring) \<Rightarrow> json \<Rightarrow> ustring" where
  "rid R rec = py_str R (py_or (json_get rec (ustr ''ID'')) (py_or (json_get rec (ustr ''IDA'')) (JStr [])))"

text \<open>The four payloads of \<open>consulta_masiva_por_id\<close>, in the order they are tried.\<close>

definition payloads :: "ustring \<Rightarrow> int \<Rightarrow> payload list" where
  "payloads token ida_int =
     [[(ustr ''token'', JStr token), (ustr ''ID_Desde'', JInt ida_int), (ustr ''ID_Hasta'', JInt ida_int)],
      [(ustr ''token'', JStr token), (ustr ''Id_Desde'', JInt ida_int), (ustr ''Id_Hasta'', JInt ida_int)],
      [(ustr ''token'', JStr token), (ustr ''IDDesde'', JInt ida_int), (ustr ''IDHasta'', JInt ida_int)],
      [(ustr ''token'', JStr token), (ustr ''Desde'', JInt ida_int), (ustr ''Hasta'', JInt ida_int)]]"

definition code_rejected :: "(json \<Rightarrow> ustring) \<Rightarrow> json \<Rightarrow> bool" where
  "code_rejected R data \<longleftrightarrow>
     is_dict data \<and> json_has data (ustr ''code'')
     \<and> py_str R (json_get data (ustr ''code'')) \<notin> set [ustr ''200'', ustr ''OK'']"

text \<open>The loop of \<open>consulta_masiva_por_id\<close> over the payloads; \<open>None\<close> is \<open>JNull\<close>.\<close>

fun consulta_payloads :: "(json \<Rightarrow> ustring) \<Rightarrow> upstream \<Rightarrow> int \<Rightarrow> payload list \<Rightarrow> json" where
  "consulta_payloads R up ida_int [] = JNull"
| "consulta_payloads R up ida_int (p # ps) =
     (let data = req_masiva up p in
      if \<not> truthy data then consulta_payloads R up ida_int ps
      else if code_rejected R data then consulta_payloads R up ida_int ps
      else
        (case find (\<lambda>rec. rid R rec = str_int ida_int) (iter_records data) of
           Some rec \<Rightarrow> rec
         | None \<Rightarrow>
             (case iter_records data of
                rec # _ \<Rightarrow> rec
              | [] \<Rightarrow> consulta_payloads R up ida_int ps)))"

text \<open>
  \<open>consulta_masiva_por_id\<close>; \<open>token_result\<close> is what \<open>_token()\<close> returns or raises, \<open>ida_int\<close>
  the value of \<open>int(ida)\<close>.
\<close>

definition consulta_masiva_por_id ::
  "(json \<Rightarrow> ustring) \<Rightarrow> upstream \<Rightarrow> py_error + ustring \<Rightarrow> int \<Rightarrow> py_error + json" where
  "consulta_masiva_por_id R up token_result ida_int =
     (case token_result of
        Inl e \<Rightarrow> Inl e
      | Inr token \<Rightarrow> Inr (consulta_payloads R up ida_int (payloads token ida_int)))"

section \<open>ph.py: normalising the record\<close>

text \<open>\<open>s.replace(old, new)\<close> for a non-empty \<open>old\<close>: every occurrence, left to right, none overlapping.\<close>

fun replace_from :: "ustring \<Rightarrow> ustring \<Rightarrow> nat \<Rightarrow> ustring \<Rightarrow> ustring" where
  "replace_from old new skip [] = []"
| "replace_from old new skip (c # cs) =
     (if skip > 0 then replace_from old new (skip - 1) cs
      else if old \<noteq> [] \<and> prefix old (c # cs) then new @ replace_from old new (length old - 1) cs
      else c # replace_from old new 0 cs)"

definition str_replace :: "ustring \<Rightarrow> ustring \<Rightarrow> ustring \<Rightarrow> ustring" where
  "str_replace old new s = replace_from old new 0 s"

text \<open>\<open>s.split()\<close>: the maximal runs of characters that are not whitespace.\<close>

definition split_ws :: "ucd \<Rightarrow> ustring \<Rightarrow> ustring list" where
  "split_ws U s = findall_runs (\<lambda>c. \<not> isspace U c) [] s"

text \<open>\<open>s.split(sep)\<close> for a one-character separator: empty pieces are kept.\<close>

fun split_on :: "codepoint \<Rightarrow> ustring \<Rightarrow> ustring \<Rightarrow> ustring list" where
  "split_on sep cur [] = [cur]"
| "split_on sep cur (c # cs) =
     (if c = sep then cur # split_on sep [] cs else split_on sep (cur @ [c]) cs)"

text \<open>\<open>" ".join(words)\<close>\<close>

fun join_sp :: "ustring list \<Rightarrow> ustring" where
  "join_sp [] = []"
| "join_sp [w] = w"
| "join_sp (w # ws) = w @ [32] @ join_sp ws"

text \<open>\<open>needle in hay\<close> on strings.\<close>

fun str_in :: "ustring \<Rightarrow> ustring \<Rightarrow> bool" where
  "str_in needle [] = (needle = [])"
| "str_in needle (c # cs) = (prefix needle (c # cs) \<or> str_in needle cs)"

definition json_get_or :: "json \<Rightarrow> ustring \<Rightarrow> json \<Rightarrow> json" where
  "json_get_or j key dflt =
     (case j of
        JDict kvs \<Rightarrow> (case map_of kvs key of None \<Rightarrow> dflt | Some v \<Rightarrow> v)
      | _ \<Rightarrow> dflt)"

definition is_str :: "json \<Rightarrow> bool" where
  "is_str j = (case j of JStr s \<Rightarrow> True | _ \<Rightarrow> False)"

text \<open>
  \<open>(x or "").strip()\<close> and \<open>(x or "").split(";")\<close>: a string method called on a parsed value.
  Only a string has it; on a number, a boolean, a list or a dict the call raises
  \<open>AttributeError\<close>.
\<close>

definition or_empty :: "json \<Rightarrow> json" where
  "or_empty x = py_or x (JStr [])"

definition method_strip :: "ucd \<Rightarrow> json \<Rightarrow> py_error + ustring" where
  "method_strip U x = (case x of JStr s \<Rightarrow> Inr (strip U s) | _ \<Rightarrow> Inl AttributeError)"

text \<open>\<open>_normalize_text\<close> on a string.\<close>

definition normalize_text :: "ucd \<Rightarrow> ustring \<Rightarrow> ustring" where
  "normalize_text U v = str_upper U (strip_marks U v)"

text \<open>\<open>_clean_email_text\<close>\<close>

definition clean_email_text :: "(json \<Rightarrow> ustring) \<Rightarrow> json \<Rightarrow> ustring" where
  "clean_email_text R v =
     (if \<not> truthy v then []
      else
        (let v1 = str_replace (ustr '' arroba '') (ustr ''@'')
                    (str_replace (ustr ''(at)'') (ustr ''@'')
                      (str_replace (ustr ''[at]'') (ustr ''@'')
                        (str_replace (ustr '' at '') (ustr ''@'') (py_str R v))));
             v2 = str_replace (ustr ''(dot)'') (ustr ''.'')
                    (str_replace (ustr ''[dot]'') (ustr ''.'')
                      (str_replace (ustr '' dot '') (ustr ''.'') v1))
         in str_replace (ustr ''|'') (ustr '' '')
              (str_replace (ustr '';'') (ustr '' '')
                (str_replace (ustr '','') (ustr '' '') v2))))"

definition mail_keys :: "ustring list" where
  "mail_keys =
     [ustr ''Email'', ustr ''email'', ustr ''Mail'', ustr ''MAIL'', ustr ''E-mail'',
      ustr ''UsuarioAutogestion'', ustr ''Autogestion_User'']"

text \<open>
  \<open>extraer_mail\<close>. The parameter \<open>E\<close> is \<open>_EMAIL_RE.search(text)\<close> of the \<open>re\<close> library: the
  text it matches, \<open>None\<close> when it finds no match.
\<close>

fun first_email :: "ucd \<Rightarrow> (json \<Rightarrow> ustring) \<Rightarrow> (ustring \<Rightarrow> ustring option) \<Rightarrow> json list \<Rightarrow> ustring" where
  "first_email U R E [] = []"
| "first_email U R E (v # vs) =
     (case E (clean_email_text R v) of
        Some m \<Rightarrow> str_lower U m
      | None \<Rightarrow> first_email U R E vs)"

definition json_values :: "json \<Rightarrow> json list" where
  "json_values j = (case j of JDict kvs \<Rightarrow> map snd kvs | _ \<Rightarrow> [])"

definition extraer_mail :: "ucd \<Rightarrow> (json \<Rightarrow> ustring) \<Rightarrow> (ustring \<Rightarrow> ustring option) \<Rightarrow> json \<Rightarrow> ustring" where
  "extraer_mail U R E rec =
     (let keyed = map (json_get rec)
                    (filter (\<lambda>key. json_has rec key \<and> truthy (json_get rec key)) mail_keys);
          candidates = (if keyed = [] then filter is_str (json_values rec) else keyed)
      in first_email U R E candidates)"

text \<open>\<open>_parse_product_flags\<close>: the flags TV, HBO, Pack Futbol, in this order.\<close>

definition parse_product_flags :: "ucd \<Rightarrow> json \<Rightarrow> py_error + (bool \<times> bool \<times> bool)" where
  "parse_product_flags U productos =
     (case or_empty productos of
        JStr s \<Rightarrow>
          (let items = filter (\<lambda>p. p \<noteq> []) (map (strip U) (split_on 59 [] s));
               normalized = map (normalize_text U) items
           in Inr (list_ex (\<lambda>p. str_in (ustr ''SERVICIO TV'') p \<or> str_in (ustr ''BASICO'') p
                               \<or> str_in (ustr ''BASIC'') p) normalized,
                   list_ex (\<lambda>p. str_in (ustr ''HBO'') p) normalized,
                   list_ex (\<lambda>p. str_in (ustr ''PACK FUTB'') p \<or> str_in (ustr ''FUTBOL'') p
                               \<or> str_in (ustr ''DEPORTIVO'') p) normalized))
      | _ \<Rightarrow> Inl AttributeError)"

text \<open>\<open>_estado_code\<close>\<close>

definition estado_code :: "ucd \<Rightarrow> ustring \<Rightarrow> ustring" where
  "estado_code U v =
     (let normalized = normalize_text U v in
      if prefix (ustr ''ACT'') normalized then ustr ''activo''
      else if prefix (ustr ''SUS'') normalized then ustr ''suspendido''
      else if prefix (ustr ''BAJ'') normalized then ustr ''baja''
      else ustr ''desconocido'')"

text \<open>
  \<open>transformar_desde_masiva\<close>: the entries of the dict it returns, in the order of its keys,
  or the \<open>AttributeError\<close> a field that is not a string raises in \<open>_parse_product_flags\<close>, in
  the line of \<open>estado_txt\<close>, or at the key \<open>Mail\<close>.
\<close>

definition transformar_desde_masiva ::
  "ucd \<Rightarrow> (json \<Rightarrow> ustring) \<Rightarrow> (ustring \<Rightarrow> ustring option) \<Rightarrow> json
     \<Rightarrow> py_error + (ustring \<times> pyval) list" where
  "transformar_desde_masiva U R E rec =
     (let nombre_base =
            py_or (json_get rec (ustr ''RS''))
              (JStr (py_str R (json_get_or rec (ustr ''Apellido'') (JStr [])) @ [32]
                     @ py_str R (json_get_or rec (ustr ''Nombre'') (JStr []))));
          nombre_limpio = join_sp (split_ws U (str_replace (ustr '','') (ustr '' '') (py_str R nombre_base)));
          dni = py_or (json_get rec (ustr ''Documento'')) (py_or (json_get rec (ustr ''CUIT'')) (JStr []));
          mail = py_or (json_get rec (ustr ''Email'')) (JStr (extraer_mail U R E rec));
          iniciales = str_lower U (concat (map (take 1) (filter (\<lambda>w. w \<noteq> []) (split_ws U nombre_limpio))));
          contrasena = strip U (iniciales @ py_str R dni)
      in case parse_product_flags U
                (py_or (json_get rec (ustr ''Television'')) (py_or (json_get rec (ustr ''Productos'')) (JStr []))) of
           Inl e \<Rightarrow> Inl e
         | Inr flags \<Rightarrow>
             (case method_strip U
                     (py_or (json_get rec (ustr ''Estado'')) (py_or (json_get rec (ustr ''estado'')) (JStr []))) of
                Inl e \<Rightarrow> Inl e
              | Inr estado_txt \<Rightarrow>
                  (case method_strip U (or_empty mail) of
                     Inl e \<Rightarrow> Inl e
                   | Inr mail_txt \<Rightarrow>
                       Inr [(ustr ''ID'', VStr (rid R rec)),
                            (ustr ''Nombre'', VStr nombre_limpio),
                            (ustr ''DNI'', VStr (if dni = JNull then [] else py_str R dni)),
                            (ustr ''Mail'', VStr mail_txt),
                            (ustr ''Contrasena'', VStr contrasena),
                            (ustr ''TV'', VBool (fst flags)),
                            (ustr ''HBO'', VBool (fst (snd flags))),
                            (ustr ''Pack Futbol'', VBool (snd (snd flags))),
                            (ustr ''Estado'', VStr estado_txt),
                            (ustr ''EstadoCode'', VStr (estado_code U estado_txt)),
                            (ustr ''_via'', VStr (ustr ''masiva''))])))"

text \<open>
  \<open>consultar_y_transformar_masiva\<close>. \<open>now1\<close> and \<open>now2\<close> are the times the cache read and the
  cache write observe. An exception of \<open>transformar_desde_masiva\<close> leaves the function before
  the cache is written.
\<close>

definition no_data_error :: py_error where
  "no_data_error = RuntimeError (ustr ''Consulta_Masiva_Datos did not return data'')"

definition consultar_y_transformar_masiva ::
  "ucd \<Rightarrow> (json \<Rightarrow> ustring) \<Rightarrow> (ustring \<Rightarrow> ustring option) \<Rightarrow> real \<Rightarrow> int \<Rightarrow> upstream
     \<Rightarrow> py_error + ustring \<Rightarrow> real \<Rightarrow> real \<Rightarrow> heap \<times> ph_cache \<Rightarrow> int
     \<Rightarrow> py_error + (pyval \<times> heap \<times> ph_cache)" where
  "consultar_y_transformar_masiva U R E CACHE_TTL CACHE_MAX up token_result now1 now2 st ida_int =
     (let cache_key = str_int ida_int in
      case ph_cache_get CACHE_TTL now1 st cache_key of
        Inl e \<Rightarrow> Inl e
      | Inr (cached, st1) \<Rightarrow>
          if cached \<noteq> VNone then Inr (cached, st1)
          else
            (case consulta_masiva_por_id R up token_result ida_int of
               Inl e \<Rightarrow> Inl e
             | Inr rec \<Rightarrow>
                 if \<not> truthy rec then Inl no_data_error
                 else
                   (case transformar_desde_masiva U R E rec of
                      Inl e \<Rightarrow> Inl e
                    | Inr entries \<Rightarrow>
                        (let data = VRef (length (fst st1));
                             h2 = fst st1 @ [ODict entries]
                         in case ph_cache_set CACHE_TTL CACHE_MAX now2 (h2, snd st1) cache_key data of
                              Inl e \<Rightarrow> Inl e
                            | Inr st2 \<Rightarrow> Inr (data, st2)))))"

text \<open>
  The negotiation as the specification words it, for comparison: the three attempts stop at
  the first response with status 200, whether or not its body can be parsed.
\<close>

fun spec_req_attempts :: "upstream \<Rightarrow> payload \<Rightarrow> http_method list \<Rightarrow> json" where
  "spec_req_attempts up p [] = JNull"
| "spec_req_attempts up p (m # ms) =
     (case up m p of
        Raised \<Rightarrow> spec_req_attempts up p ms
      | Response status_code body \<Rightarrow>
          (if status_code = 200 then (case body of None \<Rightarrow> JNull | Some j \<Rightarrow> j)
           else spec_req_attempts up p ms))"

text \<open>
  A response that counts as data for \<open>consulta_masiva_por_id\<close>, and the record taken from
  it: the first whose \<open>ID\<close> or \<open>IDA\<close> is the requested one, else the first.
\<close>

definition usable :: "(json \<Rightarrow> ustring) \<Rightarrow> json \<Rightarrow> bool" where
  "usable R data \<longleftrightarrow> truthy data \<and> \<not> code_rejected R data \<and> iter_records data \<noteq> []"

definition pick_record :: "(json \<Rightarrow> ustring) \<Rightarrow> int \<Rightarrow> json \<Rightarrow> json" where
  "pick_record R ida_int data =
     (case find (\<lambda>rec. rid R rec = str_int ida_int) (iter_records data) of
        Some rec \<Rightarrow> rec
      | None \<Rightarrow> hd (iter_records data))"

text \<open>The value an exchange contributes: the parsed body of a response with status 200.\<close>

definition parsed_200 :: "http_outcome \<Rightarrow> json option" where
  "parsed_200 x =
     (case x of
        Raised \<Rightarrow> None
      | Response status_code body \<Rightarrow> (if status_code = 200 then body else None))"

text \<open>
  An upstream service that answers a JSON POST with status 200 and a body that is not
  JSON, a form POST with status 200 and one record, and fails a GET.
\<close>

definition upstream_html_then_json :: upstream where
  "upstream_html_then_json m p =
     (case m of
        PostJson \<Rightarrow> Response 200 None
      | PostForm \<Rightarrow> Response 200 (Some (JList [JDict [(ustr ''ID'', JInt 7)]]))
      | GetQuery \<Rightarrow> Raised)"

definition repr_empty :: "json \<Rightarrow> ustring" where
  "repr_empty j = []"

text \<open>A search that finds no address, for records that hold no text.\<close>

definition email_search_none :: "ustring \<Rightarrow> ustring option" where
  "email_search_none s = None"

text \<open>An upstream service whose record has a number in the field \<open>Estado\<close>.\<close>

definition upstream_estado_numerico :: upstream where
  "upstream_estado_numerico m p =
     Response 200 (Some (JList [JDict [(ustr ''ID'', JInt 7), (ustr ''Estado'', JInt 1)]]))"

text \<open>An upstream service that is down: every request raises.\<close>

definition upstream_down :: upstream where
  "upstream_down m p = Raised"

text \<open>
  An upstream service that answers with two records under the key \<open>abonados\<close>: the first
  with \<open>ID\<close> 5, the second with \<open>IDA\<close> "7".
\<close>

definition upstream_dos_abonados :: upstream where
  "upstream_dos_abonados m p =
     Response 200
       (Some (JDict [(ustr ''abonados'',
                      JList [JDict [(ustr ''ID'', JInt 5)], JDict [(ustr ''IDA'', JStr (ustr ''7''))]])]))"

section \<open>Properties of the caches\<close>

lemma fold_od_pop: "fold od_pop ks c = filter (\<lambda>kv. fst kv \<notin> set ks) c"
  by (induction ks arbitrary: c) (auto simp: od_pop_def intro: filter_cong)

lemma ph_purge_expired_filter:
  "\<exists>P. ph_purge_expired ttl now c = filter P c"
  unfolding ph_purge_expired_def
  by (auto simp: fold_od_pop Let_def intro: exI[of _ "\<lambda>_. False"])

lemma ph_purge_no_expired:
  "0 < ttl \<Longrightarrow> no_expired ttl now (ph_purge_expired ttl now c)"
  unfolding ph_purge_expired_def no_expired_def
  by (auto simp: fold_od_pop Let_def list_all_iff image_iff)

lemma move_update:
  "od_move_to_end key (AList.update key v c) = od_pop key c @ [(key, v)]"
  by (induction c) (auto simp: od_move_to_end_def od_pop_def update_conv')

lemma ph_evict_length: "0 < m \<Longrightarrow> int (length (ph_evict m c)) \<le> m"
proof (induction m c rule: ph_evict.induct)
  case (1 m c)
  then show ?case by (subst ph_evict.simps) auto
qed

lemma ph_evict_one:
  assumes "0 < m" "int (length c) = m + 1"
  shows "ph_evict m c = tl c"
proof -
  have "ph_evict m c = ph_evict m (tl c)"
    using assms by (subst ph_evict.simps) simp
  also have "\<dots> = tl c"
    using assms by (subst ph_evict.simps) simp
  finally show ?thesis .
qed

lemma ph_evict_subset: "set (ph_evict m c) \<subseteq> set c"
proof (induction m c rule: ph_evict.induct)
  case (1 m c)
  show ?case
  proof (cases "int (length c) > m \<and> m > 0")
    case True
    then have "set (ph_evict m c) \<subseteq> set (tl c)"
      using 1 by (subst ph_evict.simps) simp
    moreover have "set (tl c) \<subseteq> set c" by (cases c) auto
    ultimately show ?thesis by blast
  next
    case False
    then show ?thesis by (subst ph_evict.simps) auto
  qed
qed

lemma ph_cache_store_eq:
  "ph_cache_store ttl now st key v = Inr (h', c3) \<Longrightarrow>
     \<exists>d. c3 = od_pop key (ph_purge_expired ttl now (snd st)) @ [(key, (now, d))]
        \<and> dict_copy (fst st) v = Inr (h', d)"
  unfolding ph_cache_store_def
  by (auto simp: Let_def move_update split: sum.splits)

lemma no_expired_od_pop: "no_expired ttl now c \<Longrightarrow> no_expired ttl now (od_pop key c)"
  by (auto simp: no_expired_def od_pop_def list_all_iff)

lemma no_expired_move: "no_expired ttl now c \<Longrightarrow> no_expired ttl now (od_move_to_end key c)"
  by (fastforce simp: no_expired_def od_move_to_end_def od_pop_def list_all_iff
      split: option.splits dest!: map_of_SomeD)

lemma no_expired_subset: "no_expired ttl now c \<Longrightarrow> set c' \<subseteq> set c \<Longrightarrow> no_expired ttl now c'"
  by (auto simp: no_expired_def list_all_iff)

lemma ph_get_no_expired:
  "0 < ttl \<Longrightarrow> ph_cache_get ttl now st key = Inr (r, h', c') \<Longrightarrow> no_expired ttl now c'"
  unfolding ph_cache_get_def
  by (auto simp: Let_def ph_purge_no_expired no_expired_move split: option.splits sum.splits)

lemma ph_set_no_expired:
  assumes "0 < ttl" "ph_cache_set ttl mx now st key v = Inr (h', c')"
  shows "no_expired ttl now c'"
proof -
  from assms obtain c3 where s: "ph_cache_store ttl now st key v = Inr (h', c3)"
    and c': "c' = ph_evict mx c3"
    by (auto simp: ph_cache_set_def split: sum.splits)
  from ph_cache_store_eq[OF s] obtain d where
    c3: "c3 = od_pop key (ph_purge_expired ttl now (snd st)) @ [(key, (now, d))]" by blast
  have "no_expired ttl now c3"
    using no_expired_od_pop[OF ph_purge_no_expired[OF assms(1)], of now key "snd st"] assms(1)
    unfolding c3 by (simp add: no_expired_def)
  then show ?thesis unfolding c' by (rule no_expired_subset) (rule ph_evict_subset)
qed

lemma od_pop_update: "od_pop key (AList.update key v c) = od_pop key c"
  by (induction c) (auto simp: od_pop_def)

lemma od_pop_idem: "od_pop key (od_pop key c) = od_pop key c"
  by (simp add: od_pop_def)

text \<open>
  Claim C4. With a time to live that is zero or negative a cache is disabled: in both modules
  \<open>_cache_get\<close> returns \<open>None\<close> and \<open>_cache_set\<close> leaves the state as it is, whatever the key,
  the value and the stored entries.
\<close>

theorem cache_disabled_when_ttl_nonpositive:
  assumes "ttl \<le> 0"
  shows "ph_cache_get ttl now st key = Inr (VNone, st)
       \<and> ph_cache_set ttl mx now st key v = Inr st
       \<and> tv_cache_get ttl now st key = Inr (VNone, st)
       \<and> tv_cache_set ttl now st key v = Inr st"
  using assms
  by (simp add: ph_cache_get_def ph_cache_set_def tv_cache_get_def tv_cache_set_def)

theorem cache_disabled_when_ttl_nonpositive_witness:
  "(0::real) \<le> 0
   \<and> ph_cache_get 0 5 ([ODict []], [(ustr ''7'', (1, VRef 0))]) (ustr ''7'')
        = Inr (VNone, [ODict []], [(ustr ''7'', (1, VRef 0))])
   \<and> ph_cache_set 0 64 5 ([ODict []], [(ustr ''7'', (1, VRef 0))]) (ustr ''7'') (VRef 0)
        = Inr ([ODict []], [(ustr ''7'', (1, VRef 0))])
   \<and> tv_cache_get 0 5 ([ODict []], [(ustr ''7'', (1, VRef 0))]) (ustr ''7'')
        = Inr (VNone, [ODict []], [(ustr ''7'', (1, VRef 0))])
   \<and> tv_cache_set 0 5 ([ODict []], [(ustr ''7'', (1, VRef 0))]) (ustr ''7'') (VRef 0)
        = Inr ([ODict []], [(ustr ''7'', (1, VRef 0))])"
proof -
  have h: "(0::real) \<le> 0" by simp
  show ?thesis
    using h cache_disabled_when_ttl_nonpositive[OF h, of 5 "([ODict []], [(ustr ''7'', (1, VRef 0))])" "ustr ''7''" 64 "VRef 0"]
    by blast
qed

text \<open>
  Claim C5, as stated, fails for the tabular-source cache: \<open>_cache_get\<close> of tv.py drops the
  entry of the requested key only, and \<open>_cache_set\<close> purges nothing, so an expired entry of
  another key stays stored.
\<close>

theorem tv_cache_keeps_expired_counterexample:
  "tv_cache_get 45 100
      ([OList []], [(ustr ''matrix'', (0, VRef 0)), (ustr ''records'', (0, VRef 0))]) (ustr ''matrix'')
     = Inr (VNone, [OList []], [(ustr ''records'', (0, VRef 0))])
   \<and> tv_cache_set 45 100 ([OList []], [(ustr ''records'', (0, VRef 0))]) (ustr ''matrix'') (VRef 0)
     = Inr ([OList [], OList []], [(ustr ''records'', (0, VRef 0)), (ustr ''matrix'', (100, VRef 1))])
   \<and> \<not> no_expired 45 100 [(ustr ''records'', (0, VRef 0))]
   \<and> \<not> no_expired 45 100 [(ustr ''records'', (0, VRef 0)), (ustr ''matrix'', (100, VRef 1))]"
  by (simp add: tv_cache_get_def tv_cache_set_def od_pop_def ustr_def no_expired_def deepcopy_def)

text \<open>
  Claim C5, amended. In ph.py every \<open>_cache_get\<close> and \<open>_cache_set\<close> of an enabled cache purges
  the expired entries of all keys first, so none is stored afterwards. In tv.py the entries
  of the other keys are left as they are: \<open>_cache_get\<close> removes the entry of the requested key
  when it is expired, \<open>_cache_set\<close> replaces the entry of the written key.
\<close>

theorem cache_purge_on_access:
  "(0 < ttl \<longrightarrow> ph_cache_get ttl now st key = Inr (r, h', c') \<longrightarrow> no_expired ttl now c')
   \<and> (0 < ttl \<longrightarrow> ph_cache_set ttl mx now st key v = Inr (h', c') \<longrightarrow> no_expired ttl now c')
   \<and> (tv_cache_get ttl now st key = Inr (r, h', c') \<longrightarrow>
        od_pop key c' = od_pop key (snd st)
        \<and> (0 < ttl \<longrightarrow> (\<forall>e. map_of c' key = Some e \<longrightarrow> \<not> now - fst e > ttl)))
   \<and> (tv_cache_set ttl now st key v = Inr (h', c') \<longrightarrow> od_pop key c' = od_pop key (snd st))"
proof (intro conjI impI)
  assume "0 < ttl" "ph_cache_get ttl now st key = Inr (r, h', c')"
  then show "no_expired ttl now c'" by (rule ph_get_no_expired)
next
  assume "0 < ttl" "ph_cache_set ttl mx now st key v = Inr (h', c')"
  then show "no_expired ttl now c'" by (rule ph_set_no_expired)
next
  assume "tv_cache_get ttl now st key = Inr (r, h', c')"
  then show "od_pop key c' = od_pop key (snd st)"
    by (auto simp: tv_cache_get_def od_pop_idem split: if_splits option.splits sum.splits)
next
  assume g: "tv_cache_get ttl now st key = Inr (r, h', c')" and t: "0 < ttl"
  show "\<forall>e. map_of c' key = Some e \<longrightarrow> \<not> now - fst e > ttl"
  proof (intro allI impI)
    fix e assume e: "map_of c' key = Some e"
    have "map_of (od_pop key (snd st)) key = None"
      by (simp add: od_pop_def map_of_eq_None_iff image_iff)
    with g t e show "\<not> now - fst e > ttl"
      by (auto simp: tv_cache_get_def split: if_splits option.splits sum.splits)
  qed
next
  assume "tv_cache_set ttl now st key v = Inr (h', c')"
  then show "od_pop key c' = od_pop key (snd st)"
    by (auto simp: tv_cache_set_def od_pop_update split: if_splits sum.splits)
qed

theorem cache_purge_on_access_witness:
  "(0::real) < 45
   \<and> ph_cache_get 45 100 ([ODict []], [(ustr ''7'', (0, VRef 0)), (ustr ''8'', (90, VRef 0))]) (ustr ''8'')
       = Inr (VRef 1, [ODict [], ODict []], [(ustr ''8'', (90, VRef 0))])
   \<and> no_expired 45 100 [(ustr ''8'', (90, VRef 0))]
   \<and> ph_cache_set 45 64 100 ([ODict []], [(ustr ''7'', (0, VRef 0)), (ustr ''8'', (90, VRef 0))]) (ustr ''9'') (VRef 0)
       = Inr ([ODict [], ODict []], [(ustr ''8'', (90, VRef 0)), (ustr ''9'', (100, VRef 1))])
   \<and> no_expired 45 100 [(ustr ''8'', (90, VRef 0)), (ustr ''9'', (100, VRef 1))]"
proof -
  have g: "ph_cache_get 45 100 ([ODict []], [(ustr ''7'', (0, VRef 0)), (ustr ''8'', (90, VRef 0))]) (ustr ''8'')
       = Inr (VRef 1, [ODict [], ODict []], [(ustr ''8'', (90, VRef 0))])"
    by (simp add: ph_cache_get_def ph_purge_expired_def od_pop_def od_move_to_end_def ustr_def dict_copy_def)
  have s: "ph_cache_set 45 64 100 ([ODict []], [(ustr ''7'', (0, VRef 0)), (ustr ''8'', (90, VRef 0))]) (ustr ''9'') (VRef 0)
       = Inr ([ODict [], ODict []], [(ustr ''8'', (90, VRef 0)), (ustr ''9'', (100, VRef 1))])"
    by (simp add: ph_cache_set_def ph_cache_store_def ph_purge_expired_def od_pop_def od_move_to_end_def ustr_def dict_copy_def ph_evict.simps)
  have t: "(0::real) < 45" by simp
  from cache_purge_on_access[of 45 100 _ "ustr ''8''" "VRef 1" "[ODict [], ODict []]" "[(ustr ''8'', (90, VRef 0))]"] t g
  have 1: "no_expired 45 100 [(ustr ''8'', (90, VRef 0))]" by blast
  from cache_purge_on_access[of 45 100 _ "ustr ''9''" _ "[ODict [], ODict []]" "[(ustr ''8'', (90, VRef 0)), (ustr ''9'', (100, VRef 1))]" 64 "VRef 0"] t s
  have 2: "no_expired 45 100 [(ustr ''8'', (90, VRef 0)), (ustr ''9'', (100, VRef 1))]" by blast
  from t g s 1 2 show ?thesis by blast
qed

subsection \<open>Eviction order of the upstream-record cache\<close>

lemma sorted_wrt_od_pop:
  "sorted_wrt R c \<Longrightarrow> sorted_wrt R (od_pop key c)"
  by (simp add: od_pop_def sorted_wrt_filter)

lemma distinct_od_pop: "distinct (map fst c) \<Longrightarrow> distinct (map fst (od_pop key c))"
  by (simp add: od_pop_def distinct_map_filter)

lemma key_notin_od_pop: "key \<notin> fst ` set (od_pop key c)"
  by (auto simp: od_pop_def)

lemma set_od_pop: "set (od_pop key c) \<subseteq> set c"
  by (auto simp: od_pop_def)

lemma lru_touch_append:
  assumes d: "distinct (map fst c)"
    and s: "sorted_wrt (\<lambda>a b. t (fst a) < t (fst b)) c"
    and b: "\<forall>kv \<in> set c. t (fst kv) < n"
  shows "distinct (map fst (od_pop key c @ [(key, v)]))
       \<and> sorted_wrt (\<lambda>a b. (t(key := n)) (fst a) < (t(key := n)) (fst b)) (od_pop key c @ [(key, v)])
       \<and> (\<forall>kv \<in> set (od_pop key c @ [(key, v)]). (t(key := n)) (fst kv) < Suc n)"
proof -
  have k: "\<forall>kv \<in> set (od_pop key c). fst kv \<noteq> key" by (auto simp: od_pop_def)
  have 1: "distinct (map fst (od_pop key c @ [(key, v)]))"
    using distinct_od_pop[OF d, of key] k by auto
  have s': "sorted_wrt (\<lambda>a b. t (fst a) < t (fst b)) (od_pop key c)"
    using s by (rule sorted_wrt_od_pop)
  have "sorted_wrt (\<lambda>a b. (t(key := n)) (fst a) < (t(key := n)) (fst b)) (od_pop key c)"
  proof (rule sorted_wrt_mono_rel[OF _ s'])
    fix x y
    assume "x \<in> set (od_pop key c)" "y \<in> set (od_pop key c)" "t (fst x) < t (fst y)"
    then show "(t(key := n)) (fst x) < (t(key := n)) (fst y)" using k by simp
  qed
  moreover have "\<forall>kv \<in> set (od_pop key c). (t(key := n)) (fst kv) < n"
    using k b set_od_pop[of key c] by auto
  ultimately have 2: "sorted_wrt (\<lambda>a b. (t(key := n)) (fst a) < (t(key := n)) (fst b)) (od_pop key c @ [(key, v)])"
    by (auto simp: sorted_wrt_append)
  have 3: "\<forall>kv \<in> set (od_pop key c @ [(key, v)]). (t(key := n)) (fst kv) < Suc n"
  proof
    fix kv assume "kv \<in> set (od_pop key c @ [(key, v)])"
    then consider "kv \<in> set (od_pop key c)" | "kv = (key, v)" by auto
    then show "(t(key := n)) (fst kv) < Suc n"
    proof cases
      case 1
      then have "fst kv \<noteq> key" "t (fst kv) < n" using k b set_od_pop[of key c] by auto
      then show ?thesis by simp
    next
      case 2
      then show ?thesis by simp
    qed
  qed
  from 1 2 3 show ?thesis by blast
qed

lemma lru_filter:
  assumes "distinct (map fst c)"
    and "sorted_wrt (\<lambda>a b. t (fst a) < t (fst b)) c"
    and "\<forall>kv \<in> set c. t (fst kv) < n"
  shows "distinct (map fst (filter P c))
       \<and> sorted_wrt (\<lambda>a b. t (fst a) < t (fst b)) (filter P c)
       \<and> (\<forall>kv \<in> set (filter P c). t (fst kv) < n)"
  using assms by (auto simp: distinct_map_filter sorted_wrt_filter)

lemma lru_purge:
  assumes "distinct (map fst c)"
    and "sorted_wrt (\<lambda>a b. t (fst a) < t (fst b)) c"
    and "\<forall>kv \<in> set c. t (fst kv) < n"
  shows "distinct (map fst (ph_purge_expired ttl now c))
       \<and> sorted_wrt (\<lambda>a b. t (fst a) < t (fst b)) (ph_purge_expired ttl now c)
       \<and> (\<forall>kv \<in> set (ph_purge_expired ttl now c). t (fst kv) < n)"
proof -
  obtain P where "ph_purge_expired ttl now c = filter P c"
    using ph_purge_expired_filter by blast
  then show ?thesis using lru_filter[OF assms, of P] by simp
qed

lemma move_distinct:
  "distinct (map fst c) \<Longrightarrow> map_of c key = Some v \<Longrightarrow>
     od_move_to_end key c = od_pop key c @ [(key, v)]"
  by (simp add: od_move_to_end_def)

lemma ph_evict_suffix: "\<exists>n. ph_evict m c = drop n c"
proof (induction m c rule: ph_evict.induct)
  case (1 m c)
  show ?case
  proof (cases "int (length c) > m \<and> m > 0")
    case True
    then obtain n where "ph_evict m (tl c) = drop n (tl c)" using 1 by blast
    then have "ph_evict m c = drop (Suc n) c"
      using True by (subst ph_evict.simps) (simp add: drop_Suc)
    then show ?thesis by blast
  next
    case False
    then have "ph_evict m c = drop 0 c" by (subst ph_evict.simps) auto
    then show ?thesis by blast
  qed
qed

lemma lru_drop:
  assumes "distinct (map fst c)"
    and "sorted_wrt (\<lambda>a b. t (fst a) < t (fst b)) c"
    and "\<forall>kv \<in> set c. t (fst kv) < n"
  shows "distinct (map fst (drop k c))
       \<and> sorted_wrt (\<lambda>a b. t (fst a) < t (fst b)) (drop k c)
       \<and> (\<forall>kv \<in> set (drop k c). t (fst kv) < n)"
  using assms by (auto simp: sorted_wrt_drop drop_map[symmetric] dest: in_set_dropD)

lemma lru_inv_init: "lru_inv (ph_trace_init h0)"
  by (simp add: lru_inv_def ph_trace_init_def)

lemma dict_copy_ref: "dict_copy h v = Inr (h', r) \<Longrightarrow> r \<noteq> VNone"
  by (auto simp: dict_copy_def split: pyval.splits if_splits pyobj.splits)

lemma lru_inv_get:
  assumes inv: "lru_inv g" and st: "ph_step ttl mx g (Get key now) = Inr g'"
  shows "lru_inv g'"
proof (cases "ttl \<le> 0")
  case True
  with st have "g' = \<lparr>store = store g, touched = touched g, clock = Suc (clock g)\<rparr>"
    by (auto simp: ph_cache_get_def)
  with inv show ?thesis by (auto simp: lru_inv_def less_SucI)
next
  case False
  let ?c1 = "ph_purge_expired ttl now (snd (store g))"
  from inv have p: "distinct (map fst ?c1)
       \<and> sorted_wrt (\<lambda>a b. touched g (fst a) < touched g (fst b)) ?c1
       \<and> (\<forall>kv \<in> set ?c1. touched g (fst kv) < clock g)"
    unfolding lru_inv_def by (intro lru_purge) auto
  show ?thesis
  proof (cases "map_of ?c1 key")
    case None
    with st False have "g' = \<lparr>store = (fst (store g), ?c1), touched = touched g, clock = Suc (clock g)\<rparr>"
      by (auto simp: ph_cache_get_def Let_def)
    with p show ?thesis by (auto simp: lru_inv_def less_SucI)
  next
    case (Some item)
    with st False obtain h' r where dc: "dict_copy (fst (store g)) (snd item) = Inr (h', r)"
      and g': "g' = \<lparr>store = (h', od_move_to_end key ?c1),
                     touched = (if r = VNone then touched g else (touched g)(key := clock g)),
                     clock = Suc (clock g)\<rparr>"
      by (auto simp: ph_cache_get_def Let_def split: sum.splits)
    have r: "r \<noteq> VNone" using dc by (rule dict_copy_ref)
    have m: "od_move_to_end key ?c1 = od_pop key ?c1 @ [(key, item)]"
      using p Some by (simp add: move_distinct)
    from p have "distinct (map fst (od_pop key ?c1 @ [(key, item)]))
       \<and> sorted_wrt (\<lambda>a b. ((touched g)(key := clock g)) (fst a) < ((touched g)(key := clock g)) (fst b)) (od_pop key ?c1 @ [(key, item)])
       \<and> (\<forall>kv \<in> set (od_pop key ?c1 @ [(key, item)]). ((touched g)(key := clock g)) (fst kv) < Suc (clock g))"
      by (intro lru_touch_append) auto
    then show ?thesis unfolding lru_inv_def g' m using r by simp
  qed
qed

lemma lru_inv_set:
  assumes inv: "lru_inv g" and ttl: "0 < ttl" and st: "ph_step ttl mx g (Set key v now) = Inr g'"
  shows "lru_inv g'"
proof -
  let ?c1 = "ph_purge_expired ttl now (snd (store g))"
  let ?t = "(touched g)(key := clock g)"
  from st ttl obtain h' c3 where s: "ph_cache_store ttl now (store g) key v = Inr (h', c3)"
    and g': "g' = \<lparr>store = (h', ph_evict mx c3), touched = ?t, clock = Suc (clock g)\<rparr>"
    by (auto simp: ph_cache_set_def split: sum.splits)
  from ph_cache_store_eq[OF s] obtain d where c3: "c3 = od_pop key ?c1 @ [(key, (now, d))]"
    by blast
  from inv have p: "distinct (map fst ?c1)
       \<and> sorted_wrt (\<lambda>a b. touched g (fst a) < touched g (fst b)) ?c1
       \<and> (\<forall>kv \<in> set ?c1. touched g (fst kv) < clock g)"
    unfolding lru_inv_def by (intro lru_purge) auto
  from p have q: "distinct (map fst c3)
       \<and> sorted_wrt (\<lambda>a b. ?t (fst a) < ?t (fst b)) c3
       \<and> (\<forall>kv \<in> set c3. ?t (fst kv) < Suc (clock g))"
    unfolding c3 by (intro lru_touch_append) auto
  obtain n where e: "ph_evict mx c3 = drop n c3" using ph_evict_suffix by blast
  from q have "distinct (map fst (drop n c3))
       \<and> sorted_wrt (\<lambda>a b. ?t (fst a) < ?t (fst b)) (drop n c3)
       \<and> (\<forall>kv \<in> set (drop n c3). ?t (fst kv) < Suc (clock g))"
    by (intro lru_drop) auto
  then show ?thesis unfolding lru_inv_def g' e by simp
qed

lemma purge_length: "length (ph_purge_expired ttl now c) \<le> length c"
proof -
  obtain P where "ph_purge_expired ttl now c = filter P c"
    using ph_purge_expired_filter by blast
  then show ?thesis by simp
qed

lemma od_pop_length: "length (od_pop key c) \<le> length c"
  by (simp add: od_pop_def)

lemma move_length: "distinct (map fst c) \<Longrightarrow> length (od_move_to_end key c) \<le> length c"
proof (cases "map_of c key")
  case None
  then show ?thesis by (simp add: od_move_to_end_def)
next
  case (Some v)
  assume "distinct (map fst c)"
  have "(key, v) \<in> set c" using Some by (rule map_of_SomeD)
  then have "length (od_pop key c) < length c"
    unfolding od_pop_def by (intro length_filter_less[of "(key, v)"]) auto
  with Some show ?thesis by (simp add: od_move_to_end_def)
qed

lemma step_bound:
  assumes inv: "lru_inv g" and mx: "0 < mx"
    and b: "int (length (snd (store g))) \<le> mx"
    and st: "ph_step ttl mx g x = Inr g'"
  shows "int (length (snd (store g'))) \<le> mx"
proof (cases x)
  case (Get key now)
  let ?c1 = "ph_purge_expired ttl now (snd (store g))"
  from inv have d: "distinct (map fst ?c1)"
    using lru_purge[of "snd (store g)" "touched g" "clock g" ttl now] by (auto simp: lru_inv_def)
  have "length (od_move_to_end key ?c1) \<le> length (snd (store g))"
    using move_length[OF d, of key] purge_length[of ttl now "snd (store g)"] by linarith
  moreover have "length ?c1 \<le> length (snd (store g))" by (rule purge_length)
  ultimately show ?thesis using st b unfolding Get
    by (auto simp: ph_cache_get_def Let_def split: if_splits option.splits sum.splits)
next
  case (Set key v now)
  show ?thesis
  proof (cases "ttl \<le> 0")
    case True
    with st b show ?thesis unfolding Set by (auto simp: ph_cache_set_def)
  next
    case False
    with st obtain h' c3 where "store g' = (h', ph_evict mx c3)"
      unfolding Set by (auto simp: ph_cache_set_def split: sum.splits)
    then show ?thesis using ph_evict_length[OF mx, of c3] by simp
  qed
qed

lemma step_inv: "lru_inv g \<Longrightarrow> 0 < ttl \<Longrightarrow> ph_step ttl mx g x = Inr g' \<Longrightarrow> lru_inv g'"
  by (cases x) (auto intro: lru_inv_get lru_inv_set)

lemma run_inv:
  "lru_inv g \<Longrightarrow> 0 < ttl \<Longrightarrow> 0 < mx \<Longrightarrow> int (length (snd (store g))) \<le> mx \<Longrightarrow>
   ph_run ttl mx g xs = Inr g' \<Longrightarrow> lru_inv g' \<and> int (length (snd (store g'))) \<le> mx"
proof (induction xs arbitrary: g)
  case Nil
  then show ?case by simp
next
  case (Cons x xs)
  from Cons.prems(5) obtain g1 where s: "ph_step ttl mx g x = Inr g1"
    and r: "ph_run ttl mx g1 xs = Inr g'"
    by (auto split: sum.splits)
  have "lru_inv g1" using Cons.prems(1,2) s by (rule step_inv)
  moreover have "int (length (snd (store g1))) \<le> mx"
    using Cons.prems(1,3,4) s by (rule step_bound)
  ultimately show ?case using Cons.IH[OF _ Cons.prems(2,3) _ r] by blast
qed

text \<open>
  Claim C3. With \<open>CACHE_MAX > 0\<close> and \<open>CACHE_TTL > 0\<close>, after any sequence of gets and sets
  that starts from the empty cache the number of stored entries is at most \<open>CACHE_MAX\<close>; and
  whenever a further set brings the count above \<open>CACHE_MAX\<close>, exactly one entry is evicted, the
  first of the \<open>OrderedDict\<close>, and its key is the one touched least recently, a touch being a
  set of the key or a get of it that hit.
\<close>

theorem ph_cache_bounded_lru:
  assumes "0 < CACHE_MAX" and "0 < CACHE_TTL"
    and "ph_run CACHE_TTL CACHE_MAX (ph_trace_init h0) ops = Inr g"
  shows "int (length (snd (store g))) \<le> CACHE_MAX
       \<and> (\<forall>now key v h' c3.
            ph_cache_store CACHE_TTL now (store g) key v = Inr (h', c3) \<and> int (length c3) > CACHE_MAX \<longrightarrow>
              ph_cache_set CACHE_TTL CACHE_MAX now (store g) key v = Inr (h', tl c3)
            \<and> (\<forall>kv \<in> set (tl c3).
                  ((touched g)(key := clock g)) (fst (hd c3)) < ((touched g)(key := clock g)) (fst kv)))"
proof -
  have i: "lru_inv g \<and> int (length (snd (store g))) \<le> CACHE_MAX"
    using lru_inv_init[of h0] assms(2,1) _ assms(3)
    by (rule run_inv) (simp add: ph_trace_init_def assms(1) less_imp_le)
  have e: "ph_cache_set CACHE_TTL CACHE_MAX now (store g) key v = Inr (h', tl c3)
         \<and> (\<forall>kv \<in> set (tl c3).
               ((touched g)(key := clock g)) (fst (hd c3)) < ((touched g)(key := clock g)) (fst kv))"
    if s: "ph_cache_store CACHE_TTL now (store g) key v = Inr (h', c3)"
      and l: "int (length c3) > CACHE_MAX" for now key v h' c3
  proof -
    let ?c1 = "ph_purge_expired CACHE_TTL now (snd (store g))"
    let ?t = "(touched g)(key := clock g)"
    from ph_cache_store_eq[OF s] obtain d where c3: "c3 = od_pop key ?c1 @ [(key, (now, d))]"
      by blast
    have "length c3 \<le> length (snd (store g)) + 1"
      unfolding c3 using od_pop_length[of key ?c1] purge_length[of CACHE_TTL now "snd (store g)"]
      by simp
    with i l have len: "int (length c3) = CACHE_MAX + 1" by linarith
    have ev: "ph_evict CACHE_MAX c3 = tl c3" using assms(1) len by (rule ph_evict_one)
    from i have p: "distinct (map fst ?c1)
       \<and> sorted_wrt (\<lambda>a b. touched g (fst a) < touched g (fst b)) ?c1
       \<and> (\<forall>kv \<in> set ?c1. touched g (fst kv) < clock g)"
      unfolding lru_inv_def by (intro lru_purge) auto
    from p have q: "sorted_wrt (\<lambda>a b. ?t (fst a) < ?t (fst b)) c3"
      unfolding c3 using lru_touch_append[of ?c1 "touched g" "clock g" key "(now, d)"] by blast
    from len assms(1) obtain x xs where cx: "c3 = x # xs" by (cases c3) auto
    from q have "\<forall>kv \<in> set (tl c3). ?t (fst (hd c3)) < ?t (fst kv)"
      unfolding cx by simp
    moreover have "ph_cache_set CACHE_TTL CACHE_MAX now (store g) key v = Inr (h', tl c3)"
      using s ev assms(2) by (simp add: ph_cache_set_def)
    ultimately show ?thesis by blast
  qed
  from i e show ?thesis by blast
qed

theorem ph_cache_bounded_lru_witness:
  "(0::int) < 2 \<and> (0::real) < 10
   \<and> ph_run 10 2 (ph_trace_init [ODict []])
        [Set (ustr ''a'') (VRef 0) 0, Set (ustr ''b'') (VRef 0) 1, Get (ustr ''a'') 2]
      = Inr \<lparr>store = ([ODict [], ODict [], ODict [], ODict []],
                       [(ustr ''b'', (1, VRef 2)), (ustr ''a'', (0, VRef 1))]),
              touched = (\<lambda>_. 0)(ustr ''a'' := 0, ustr ''b'' := 1, ustr ''a'' := 2),
              clock = 3\<rparr>
   \<and> ph_cache_store 10 3 ([ODict [], ODict [], ODict [], ODict []],
                       [(ustr ''b'', (1, VRef 2)), (ustr ''a'', (0, VRef 1))]) (ustr ''c'') (VRef 0)
      = Inr ([ODict [], ODict [], ODict [], ODict [], ODict []],
             [(ustr ''b'', (1, VRef 2)), (ustr ''a'', (0, VRef 1)), (ustr ''c'', (3, VRef 4))])
   \<and> ph_cache_set 10 2 3 ([ODict [], ODict [], ODict [], ODict []],
                       [(ustr ''b'', (1, VRef 2)), (ustr ''a'', (0, VRef 1))]) (ustr ''c'') (VRef 0)
      = Inr ([ODict [], ODict [], ODict [], ODict [], ODict []],
             [(ustr ''a'', (0, VRef 1)), (ustr ''c'', (3, VRef 4))])"
proof -
  let ?g = "\<lparr>store = ([ODict [], ODict [], ODict [], ODict []],
                       [(ustr ''b'', (1, VRef 2)), (ustr ''a'', (0, VRef 1))]),
              touched = (\<lambda>_. 0)(ustr ''a'' := 0, ustr ''b'' := 1, ustr ''a'' := 2),
              clock = 3\<rparr>"
  have m: "(0::int) < 2" and t: "(0::real) < 10" by simp_all
  have r: "ph_run 10 2 (ph_trace_init [ODict []])
        [Set (ustr ''a'') (VRef 0) 0, Set (ustr ''b'') (VRef 0) 1, Get (ustr ''a'') 2] = Inr ?g"
    by (simp add: ph_trace_init_def ph_cache_set_def ph_cache_get_def ph_cache_store_def
        ph_purge_expired_def od_pop_def od_move_to_end_def ustr_def dict_copy_def ph_evict.simps
        numeral_3_eq_3 numeral_2_eq_2)
  have s: "ph_cache_store 10 3 (store ?g) (ustr ''c'') (VRef 0)
      = Inr ([ODict [], ODict [], ODict [], ODict [], ODict []],
             [(ustr ''b'', (1, VRef 2)), (ustr ''a'', (0, VRef 1)), (ustr ''c'', (3, VRef 4))])"
    by (simp add: ph_cache_store_def ph_purge_expired_def od_pop_def od_move_to_end_def ustr_def
        dict_copy_def)
  note e = ph_cache_bounded_lru[OF m t r, THEN conjunct2, rule_format,
      of 3 "ustr ''c''" "VRef 0" "[ODict [], ODict [], ODict [], ODict [], ODict []]"
        "[(ustr ''b'', (1, VRef 2)), (ustr ''a'', (0, VRef 1)), (ustr ''c'', (3, VRef 4))]"]
  from e s
  have "ph_cache_set 10 2 3 (store ?g) (ustr ''c'') (VRef 0)
      = Inr ([ODict [], ODict [], ODict [], ODict [], ODict []],
             tl [(ustr ''b'', (1, VRef 2)), (ustr ''a'', (0, VRef 1)), (ustr ''c'', (3, VRef 4))])"
    by simp
  with m t r s show ?thesis by simp
qed

section \<open>Name signatures\<close>

lemma counter_fold:
  assumes "distinct (map fst c)" and "\<forall>k m. map_of c k = Some m \<longrightarrow> 0 < m"
  shows "distinct (map fst (fold (\<lambda>x c. AList.update x (case map_of c x of None \<Rightarrow> 1 | Some n \<Rightarrow> n + 1) c) xs c))
       \<and> (\<forall>k m. map_of (fold (\<lambda>x c. AList.update x (case map_of c x of None \<Rightarrow> 1 | Some n \<Rightarrow> n + 1) c) xs c) k = Some m \<longrightarrow> 0 < m)
       \<and> (\<forall>k. cnt (fold (\<lambda>x c. AList.update x (case map_of c x of None \<Rightarrow> 1 | Some n \<Rightarrow> n + 1) c) xs c) k
              = count_list xs k + cnt c k)"
  using assms
proof (induction xs arbitrary: c)
  case Nil
  then show ?case by simp
next
  case (Cons x xs)
  let ?c = "AList.update x (case map_of c x of None \<Rightarrow> 1 | Some n \<Rightarrow> n + 1) c"
  have d: "distinct (map fst ?c)" using Cons.prems(1) by (simp add: distinct_update)
  have p: "\<forall>k m. map_of ?c k = Some m \<longrightarrow> 0 < m"
    using Cons.prems(2) by (auto simp: update_conv' split: option.splits if_splits)
  have c: "\<And>k. cnt ?c k = (if k = x then 1 else 0) + cnt c k"
    by (auto simp: cnt_def update_conv' split: option.splits)
  from Cons.IH[OF d p] show ?case by (simp add: c)
qed

lemma map_of_Counter:
  "map_of (Counter xs) k = (if count_list xs k = 0 then None else Some (count_list xs k))"
proof -
  have *: "(\<forall>k m. map_of (Counter xs) k = Some m \<longrightarrow> 0 < m)
         \<and> (\<forall>k. cnt (Counter xs) k = count_list xs k + cnt [] k)"
    unfolding Counter_def using counter_fold[of "[]" xs] by simp
  then show ?thesis
    by (cases "map_of (Counter xs) k") (auto simp: cnt_def split: option.splits dest!: spec[of _ k])
qed

lemma distinct_Counter: "distinct (map fst (Counter xs))"
  unfolding Counter_def using counter_fold[of "[]" xs] by simp

lemma card_dom_map_of: "distinct (map fst a) \<Longrightarrow> card (dom (map_of a)) = length a"
  using distinct_card[of "map fst a"] by (simp add: dom_map_of_conv_image_fst)

lemma dict_eq_iff:
  assumes a: "distinct (map fst a)" and b: "distinct (map fst b)"
  shows "dict_eq a b \<longleftrightarrow> map_of a = map_of b"
proof
  assume e: "dict_eq a b"
  have le: "map_of a \<subseteq>\<^sub>m map_of b"
    unfolding map_le_def
  proof
    fix k assume "k \<in> dom (map_of a)"
    then obtain v where v: "map_of a k = Some v" by auto
    then have "(k, v) \<in> set a" by (rule map_of_SomeD)
    with e have "map_of b k = Some v" by (auto simp: dict_eq_def list_all_iff)
    with v show "map_of a k = map_of b k" by simp
  qed
  then have sub: "dom (map_of a) \<subseteq> dom (map_of b)" by (rule map_le_implies_dom_le)
  have "card (dom (map_of a)) = length a" using a by (rule card_dom_map_of)
  moreover have "card (dom (map_of b)) = length b" using b by (rule card_dom_map_of)
  moreover have "length a = length b" using e by (simp add: dict_eq_def)
  ultimately have deq: "dom (map_of a) = dom (map_of b)"
    using sub by (intro card_subset_eq) (auto simp: finite_dom_map_of)
  have "map_of b \<subseteq>\<^sub>m map_of a"
    unfolding map_le_def
  proof
    fix k assume "k \<in> dom (map_of b)"
    then have "k \<in> dom (map_of a)" using deq by simp
    then have "map_of a k = map_of b k" using le by (simp add: map_le_def)
    then show "map_of b k = map_of a k" by simp
  qed
  with le show "map_of a = map_of b" by (rule map_le_antisym)
next
  assume e: "map_of a = map_of b"
  have "card (dom (map_of a)) = length a" using a by (rule card_dom_map_of)
  moreover have "card (dom (map_of b)) = length b" using b by (rule card_dom_map_of)
  ultimately have "length a = length b" using e by simp
  moreover have "list_all (\<lambda>kv. map_of b (fst kv) = Some (snd kv)) a"
    unfolding list_all_iff e[symmetric] using a by auto
  ultimately show "dict_eq a b" by (simp add: dict_eq_def)
qed

lemma Counter_eq_iff: "dict_eq (Counter xs) (Counter ys) \<longleftrightarrow> mset xs = mset ys"
proof -
  have "dict_eq (Counter xs) (Counter ys) \<longleftrightarrow> map_of (Counter xs) = map_of (Counter ys)"
    by (rule dict_eq_iff) (rule distinct_Counter)+
  also have "\<dots> \<longleftrightarrow> (\<forall>k. count_list xs k = count_list ys k)"
    by (auto simp: fun_eq_iff map_of_Counter split: if_splits)
  also have "\<dots> \<longleftrightarrow> mset xs = mset ys"
    by (simp add: multiset_eq_iff count_mset)
  finally show ?thesis .
qed

lemma tokens_juan_garcia: "name_tokens ucd_excerpt (ustr ''Juan Garc'' @ [237] @ ustr ''a'') = [ustr ''JUAN'', ustr ''GARCIA'']"
  by (simp add: name_tokens_def strip_marks_def ucd_excerpt_def nfd_cp_def upper_cp_def is_AZ09_def ustr_def)

lemma tokens_garcia_juan: "name_tokens ucd_excerpt (ustr ''GARCIA, Juan'') = [ustr ''GARCIA'', ustr ''JUAN'']"
  by (simp add: name_tokens_def strip_marks_def ucd_excerpt_def nfd_cp_def upper_cp_def is_AZ09_def ustr_def)

lemma tokens_juan_garcias: "name_tokens ucd_excerpt (ustr ''Juan Garcias'') = [ustr ''JUAN'', ustr ''GARCIAS'']"
  by (simp add: name_tokens_def strip_marks_def ucd_excerpt_def nfd_cp_def upper_cp_def is_AZ09_def ustr_def)

lemma name_signature_Counter: "name_signature U v = Counter (name_tokens U v)"
  by (simp add: name_signature_def name_tokens_def)

text \<open>
  Claim C2. The signatures of two names are equal exactly when the names have the same
  multiset of tokens, a token being a maximal run of \<open>A-Z0-9\<close> in the upper-cased name with
  its combining marks removed: the order of the tokens does not matter, their number does.
  "Juan Garcia" written with an accented i (code point 237) and "GARCIA, Juan" have equal
  signatures; the former and "Juan Garcias" have not.
\<close>

theorem name_signature_equal_iff_token_multisets:
  "(dict_eq (name_signature U a) (name_signature U b)
      \<longleftrightarrow> mset (name_tokens U a) = mset (name_tokens U b))
   \<and> dict_eq (name_signature ucd_excerpt (ustr ''Juan Garc'' @ [237] @ ustr ''a''))
              (name_signature ucd_excerpt (ustr ''GARCIA, Juan''))
   \<and> \<not> dict_eq (name_signature ucd_excerpt (ustr ''Juan Garc'' @ [237] @ ustr ''a''))
                (name_signature ucd_excerpt (ustr ''Juan Garcias''))"
proof (intro conjI)
  show "dict_eq (name_signature U a) (name_signature U b)
      \<longleftrightarrow> mset (name_tokens U a) = mset (name_tokens U b)"
    by (simp add: name_signature_Counter Counter_eq_iff)
  show "dict_eq (name_signature ucd_excerpt (ustr ''Juan Garc'' @ [237] @ ustr ''a''))
              (name_signature ucd_excerpt (ustr ''GARCIA, Juan''))"
    unfolding name_signature_Counter Counter_eq_iff tokens_juan_garcia tokens_garcia_juan
    by (simp add: add.commute)
  show "\<not> dict_eq (name_signature ucd_excerpt (ustr ''Juan Garc'' @ [237] @ ustr ''a''))
                (name_signature ucd_excerpt (ustr ''Juan Garcias''))"
    unfolding name_signature_Counter Counter_eq_iff tokens_juan_garcia tokens_juan_garcias
    by (simp add: ustr_def)
qed

section \<open>The first available credential\<close>

lemma scan_disponible_None:
  "scan_disponible U ic iu ir n rows = None \<longleftrightarrow> (\<forall>r \<in> set rows. \<not> fila_disponible U ic iu ir r)"
  by (induction rows arbitrary: n) (auto simp: fila_disponible_def)

lemma scan_disponible_Some:
  "scan_disponible U ic iu ir n rows = Some c \<longleftrightarrow>
     (\<exists>i < length rows. fila_disponible U ic iu ir (rows ! i)
        \<and> (\<forall>j < i. \<not> fila_disponible U ic iu ir (rows ! j))
        \<and> c = credencial U ic iu (rows ! i) (n + i + 1))"
proof (induction rows arbitrary: n)
  case Nil
  then show ?case by simp
next
  case (Cons r rows)
  show ?case
  proof (cases "fila_disponible U ic iu ir r")
    case True
    have "(\<exists>i < length (r # rows). fila_disponible U ic iu ir ((r # rows) ! i)
        \<and> (\<forall>j < i. \<not> fila_disponible U ic iu ir ((r # rows) ! j))
        \<and> c = credencial U ic iu ((r # rows) ! i) (n + i + 1))
      \<longleftrightarrow> c = credencial U ic iu r (n + 1)"
    proof
      assume "\<exists>i < length (r # rows). fila_disponible U ic iu ir ((r # rows) ! i)
        \<and> (\<forall>j < i. \<not> fila_disponible U ic iu ir ((r # rows) ! j))
        \<and> c = credencial U ic iu ((r # rows) ! i) (n + i + 1)"
      then obtain i where i: "\<forall>j < i. \<not> fila_disponible U ic iu ir ((r # rows) ! j)"
        and c: "c = credencial U ic iu ((r # rows) ! i) (n + i + 1)" by blast
      have "i = 0"
      proof (rule ccontr)
        assume "i \<noteq> 0"
        then have "0 < i" by simp
        with i have "\<not> fila_disponible U ic iu ir ((r # rows) ! 0)" by blast
        with True show False by simp
      qed
      with c show "c = credencial U ic iu r (n + 1)" by simp
    next
      assume "c = credencial U ic iu r (n + 1)"
      with True show "\<exists>i < length (r # rows). fila_disponible U ic iu ir ((r # rows) ! i)
        \<and> (\<forall>j < i. \<not> fila_disponible U ic iu ir ((r # rows) ! j))
        \<and> c = credencial U ic iu ((r # rows) ! i) (n + i + 1)"
        by (intro exI[of _ 0]) simp
    qed
    moreover have "scan_disponible U ic iu ir n (r # rows) = Some (credencial U ic iu r (n + 1))"
      using True by (simp add: fila_disponible_def credencial_def)
    ultimately show ?thesis by auto
  next
    case False
    have "(\<exists>i < length (r # rows). fila_disponible U ic iu ir ((r # rows) ! i)
        \<and> (\<forall>j < i. \<not> fila_disponible U ic iu ir ((r # rows) ! j))
        \<and> c = credencial U ic iu ((r # rows) ! i) (n + i + 1))
      \<longleftrightarrow> (\<exists>i < length rows. fila_disponible U ic iu ir (rows ! i)
        \<and> (\<forall>j < i. \<not> fila_disponible U ic iu ir (rows ! j))
        \<and> c = credencial U ic iu (rows ! i) (Suc n + i + 1))" (is "?L \<longleftrightarrow> ?R")
    proof
      assume ?L
      then obtain i where i: "i < length (r # rows)" "fila_disponible U ic iu ir ((r # rows) ! i)"
        "\<forall>j < i. \<not> fila_disponible U ic iu ir ((r # rows) ! j)"
        "c = credencial U ic iu ((r # rows) ! i) (n + i + 1)" by blast
      from i(2) False obtain k where k: "i = Suc k" by (cases i) auto
      have "\<forall>j < k. \<not> fila_disponible U ic iu ir (rows ! j)"
      proof (intro allI impI)
        fix j assume "j < k"
        then have "Suc j < i" using k by simp
        with i(3) have "\<not> fila_disponible U ic iu ir ((r # rows) ! Suc j)" by blast
        then show "\<not> fila_disponible U ic iu ir (rows ! j)" by simp
      qed
      with i k show ?R by (intro exI[of _ k]) simp
    next
      assume ?R
      then obtain k where k: "k < length rows" "fila_disponible U ic iu ir (rows ! k)"
        "\<forall>j < k. \<not> fila_disponible U ic iu ir (rows ! j)"
        "c = credencial U ic iu (rows ! k) (Suc n + k + 1)" by blast
      have "\<forall>j < Suc k. \<not> fila_disponible U ic iu ir ((r # rows) ! j)"
      proof (intro allI impI)
        fix j assume j: "j < Suc k"
        show "\<not> fila_disponible U ic iu ir ((r # rows) ! j)"
        proof (cases j)
          case 0
          with False show ?thesis by simp
        next
          case (Suc j')
          with j k(3) show ?thesis by simp
        qed
      qed
      with k show ?L by (intro exI[of _ "Suc k"]) simp
    qed
    moreover have "scan_disponible U ic iu ir n (r # rows) = scan_disponible U ic iu ir (Suc n) rows"
      using False by (auto simp: fila_disponible_def)
    ultimately show ?thesis using Cons.IH[of "Suc n"] by simp
  qed
qed

lemma obtener_eq_scan:
  "obtener_usuario_cic_disponible U values =
     (if values = []
         \<or> min (find_col_idx U (values ! 0) (ustr ''CIC''))
              (min (find_col_idx U (values ! 0) (ustr ''Usuario''))
                   (find_col_idx U (values ! 0) (ustr ''Registrado''))) < 0
      then None
      else scan_disponible U (find_col_idx U (values ! 0) (ustr ''CIC''))
             (find_col_idx U (values ! 0) (ustr ''Usuario''))
             (find_col_idx U (values ! 0) (ustr ''Registrado'')) 1 (tl values))"
proof (cases "values")
  case Nil
  then show ?thesis by (simp add: obtener_usuario_cic_disponible_def)
next
  case (Cons v vs)
  show ?thesis
  proof (cases vs)
    case Nil
    with Cons show ?thesis by (simp add: obtener_usuario_cic_disponible_def Let_def)
  next
    case (Cons w ws)
    with \<open>values = v # vs\<close> show ?thesis
      by (simp add: obtener_usuario_cic_disponible_def Let_def)
  qed
qed

lemma shift_first_index:
  "(\<exists>i < length vs. P (vs ! i) \<and> (\<forall>j < i. \<not> P (vs ! j)) \<and> c = f (vs ! i) (1 + i + 1))
   \<longleftrightarrow> (\<exists>i. 1 \<le> i \<and> i < length (v # vs) \<and> P ((v # vs) ! i)
          \<and> (\<forall>j. 1 \<le> j \<and> j < i \<longrightarrow> \<not> P ((v # vs) ! j)) \<and> c = f ((v # vs) ! i) (i + 1))"
  (is "?L \<longleftrightarrow> ?R")
proof
  assume ?L
  then obtain i where i: "i < length vs" "P (vs ! i)" "\<forall>j < i. \<not> P (vs ! j)"
    "c = f (vs ! i) (1 + i + 1)" by blast
  have "\<forall>j. 1 \<le> j \<and> j < Suc i \<longrightarrow> \<not> P ((v # vs) ! j)"
  proof (intro allI impI)
    fix j assume j: "1 \<le> j \<and> j < Suc i"
    then obtain k where "j = Suc k" by (cases j) auto
    with j i(3) show "\<not> P ((v # vs) ! j)" by simp
  qed
  with i show ?R by (intro exI[of _ "Suc i"]) simp
next
  assume ?R
  then obtain i where i: "1 \<le> i" "i < length (v # vs)" "P ((v # vs) ! i)"
    "\<forall>j. 1 \<le> j \<and> j < i \<longrightarrow> \<not> P ((v # vs) ! j)" "c = f ((v # vs) ! i) (i + 1)" by blast
  from i(1) obtain k where k: "i = Suc k" by (cases i) auto
  have "\<forall>j < k. \<not> P (vs ! j)"
  proof (intro allI impI)
    fix j assume "j < k"
    then have "1 \<le> Suc j \<and> Suc j < i" using k by simp
    with i(4) have "\<not> P ((v # vs) ! Suc j)" by blast
    then show "\<not> P (vs ! j)" by simp
  qed
  with i k show ?L by (intro exI[of _ k]) simp
qed

text \<open>
  Claim C8. When the three columns are located in the first row of the grid,
  \<open>obtener_usuario_cic_disponible\<close> returns the first row after the header whose
  "Registrado" cell, trimmed and lower-cased, is one of no, n, false, 0 and whose user or CIC
  cell is not blank, with the row's 1-based position in the grid; it returns \<open>None\<close> exactly
  when the grid is empty, a column is not located, or no row qualifies. On the grid of the
  specification it returns user u2, CIC c2 and row 3.
\<close>

theorem obtener_usuario_cic_disponible_first_row:
  "(let ic = find_col_idx U (values ! 0) (ustr ''CIC'');
        iu = find_col_idx U (values ! 0) (ustr ''Usuario'');
        ir = find_col_idx U (values ! 0) (ustr ''Registrado'')
    in (values \<noteq> [] \<and> 0 \<le> ic \<and> 0 \<le> iu \<and> 0 \<le> ir \<longrightarrow>
          (\<forall>c. obtener_usuario_cic_disponible U values = Some c \<longleftrightarrow>
             (\<exists>i. 1 \<le> i \<and> i < length values \<and> fila_disponible U ic iu ir (values ! i)
                \<and> (\<forall>j. 1 \<le> j \<and> j < i \<longrightarrow> \<not> fila_disponible U ic iu ir (values ! j))
                \<and> c = credencial U ic iu (values ! i) (i + 1))))
     \<and> (obtener_usuario_cic_disponible U values = None \<longleftrightarrow>
          values = [] \<or> ic < 0 \<or> iu < 0 \<or> ir < 0
          \<or> (\<forall>i. 1 \<le> i \<and> i < length values \<longrightarrow> \<not> fila_disponible U ic iu ir (values ! i))))
   \<and> obtener_usuario_cic_disponible ucd_excerpt
        [[ustr ''ID'', ustr ''Usuario'', ustr ''CIC'', ustr ''Registrado''],
         [ustr ''1'', ustr ''u1'', ustr ''c1'', ustr ''si''],
         [ustr ''2'', ustr ''u2'', ustr ''c2'', ustr ''no'']]
      = Some \<lparr>disp_usuario = ustr ''u2'', disp_cic = ustr ''c2'', disp_row_index = 3\<rparr>"
proof -
  define ic where "ic = find_col_idx U (values ! 0) (ustr ''CIC'')"
  define iu where "iu = find_col_idx U (values ! 0) (ustr ''Usuario'')"
  define ir where "ir = find_col_idx U (values ! 0) (ustr ''Registrado'')"
  have eq: "obtener_usuario_cic_disponible U values =
     (if values = [] \<or> min ic (min iu ir) < 0 then None
      else scan_disponible U ic iu ir 1 (tl values))"
    unfolding ic_def iu_def ir_def by (rule obtener_eq_scan)
  have a: "obtener_usuario_cic_disponible U values = Some c \<longleftrightarrow>
             (\<exists>i. 1 \<le> i \<and> i < length values \<and> fila_disponible U ic iu ir (values ! i)
                \<and> (\<forall>j. 1 \<le> j \<and> j < i \<longrightarrow> \<not> fila_disponible U ic iu ir (values ! j))
                \<and> c = credencial U ic iu (values ! i) (i + 1))"
    if h: "values \<noteq> [] \<and> 0 \<le> ic \<and> 0 \<le> iu \<and> 0 \<le> ir" for c
  proof -
    from h obtain v vs where v: "values = v # vs" by (cases "values") auto
    from h have "\<not> min ic (min iu ir) < 0" by auto
    with h eq have "obtener_usuario_cic_disponible U values = scan_disponible U ic iu ir 1 (tl values)"
      by simp
    then have "obtener_usuario_cic_disponible U (v # vs) = Some c
        \<longleftrightarrow> scan_disponible U ic iu ir 1 vs = Some c"
      by (simp add: v)
    also have "\<dots> \<longleftrightarrow> (\<exists>i < length vs. fila_disponible U ic iu ir (vs ! i)
        \<and> (\<forall>j < i. \<not> fila_disponible U ic iu ir (vs ! j))
        \<and> c = credencial U ic iu (vs ! i) (1 + i + 1))"
      by (rule scan_disponible_Some)
    also have "\<dots> \<longleftrightarrow> (\<exists>i. 1 \<le> i \<and> i < length (v # vs) \<and> fila_disponible U ic iu ir ((v # vs) ! i)
          \<and> (\<forall>j. 1 \<le> j \<and> j < i \<longrightarrow> \<not> fila_disponible U ic iu ir ((v # vs) ! j))
          \<and> c = credencial U ic iu ((v # vs) ! i) (i + 1))"
      by (rule shift_first_index)
    finally show ?thesis unfolding v .
  qed
  have b: "obtener_usuario_cic_disponible U values = None \<longleftrightarrow>
          values = [] \<or> ic < 0 \<or> iu < 0 \<or> ir < 0
          \<or> (\<forall>i. 1 \<le> i \<and> i < length values \<longrightarrow> \<not> fila_disponible U ic iu ir (values ! i))"
  proof (cases "values = [] \<or> ic < 0 \<or> iu < 0 \<or> ir < 0")
    case True
    then show ?thesis unfolding eq by auto
  next
    case False
    then obtain v vs where v: "values = v # vs" by (cases "values") auto
    have "(\<forall>r \<in> set vs. \<not> fila_disponible U ic iu ir r)
       \<longleftrightarrow> (\<forall>i. 1 \<le> i \<and> i < length (v # vs) \<longrightarrow> \<not> fila_disponible U ic iu ir ((v # vs) ! i))"
    proof
      assume l: "\<forall>r \<in> set vs. \<not> fila_disponible U ic iu ir r"
      show "\<forall>i. 1 \<le> i \<and> i < length (v # vs) \<longrightarrow> \<not> fila_disponible U ic iu ir ((v # vs) ! i)"
      proof (intro allI impI)
        fix i assume i: "1 \<le> i \<and> i < length (v # vs)"
        then obtain k where "i = Suc k" by (cases i) auto
        with i l show "\<not> fila_disponible U ic iu ir ((v # vs) ! i)" by simp
      qed
    next
      assume r: "\<forall>i. 1 \<le> i \<and> i < length (v # vs) \<longrightarrow> \<not> fila_disponible U ic iu ir ((v # vs) ! i)"
      show "\<forall>r \<in> set vs. \<not> fila_disponible U ic iu ir r"
      proof
        fix x assume "x \<in> set vs"
        then obtain k where k: "k < length vs" "vs ! k = x" by (auto simp: in_set_conv_nth)
        then have "1 \<le> Suc k \<and> Suc k < length (v # vs)" by simp
        with r have "\<not> fila_disponible U ic iu ir ((v # vs) ! Suc k)" by blast
        with k show "\<not> fila_disponible U ic iu ir x" by simp
      qed
    qed
    moreover from False have "\<not> min ic (min iu ir) < 0" by auto
    with False eq have "obtener_usuario_cic_disponible U values = scan_disponible U ic iu ir 1 (tl values)"
      by simp
    ultimately show ?thesis using False by (simp add: v scan_disponible_None)
  qed
  have e: "obtener_usuario_cic_disponible ucd_excerpt
        [[ustr ''ID'', ustr ''Usuario'', ustr ''CIC'', ustr ''Registrado''],
         [ustr ''1'', ustr ''u1'', ustr ''c1'', ustr ''si''],
         [ustr ''2'', ustr ''u2'', ustr ''c2'', ustr ''no'']]
      = Some \<lparr>disp_usuario = ustr ''u2'', disp_cic = ustr ''c2'', disp_row_index = 3\<rparr>"
    by code_simp
  from a b e show ?thesis unfolding Let_def ic_def iu_def ir_def by blast
qed

theorem obtener_usuario_cic_disponible_first_row_witness:
  "[[ustr ''ID'', ustr ''Usuario'', ustr ''CIC'', ustr ''Registrado''],
    [ustr ''1'', ustr ''u1'', ustr ''c1'', ustr ''si''],
    [ustr ''2'', ustr ''u2'', ustr ''c2'', ustr ''no'']] \<noteq> ([] :: grid)
   \<and> find_col_idx ucd_excerpt [ustr ''ID'', ustr ''Usuario'', ustr ''CIC'', ustr ''Registrado''] (ustr ''CIC'') = 2
   \<and> find_col_idx ucd_excerpt [ustr ''ID'', ustr ''Usuario'', ustr ''CIC'', ustr ''Registrado''] (ustr ''Usuario'') = 1
   \<and> find_col_idx ucd_excerpt [ustr ''ID'', ustr ''Usuario'', ustr ''CIC'', ustr ''Registrado''] (ustr ''Registrado'') = 3
   \<and> (\<exists>i. 1 \<le> i \<and> i < 3
          \<and> fila_disponible ucd_excerpt 2 1 3
               ([[ustr ''ID'', ustr ''Usuario'', ustr ''CIC'', ustr ''Registrado''],
                 [ustr ''1'', ustr ''u1'', ustr ''c1'', ustr ''si''],
                 [ustr ''2'', ustr ''u2'', ustr ''c2'', ustr ''no'']] ! i)
          \<and> \<lparr>disp_usuario = ustr ''u2'', disp_cic = ustr ''c2'', disp_row_index = 3\<rparr>
              = credencial ucd_excerpt 2 1
                 ([[ustr ''ID'', ustr ''Usuario'', ustr ''CIC'', ustr ''Registrado''],
                   [ustr ''1'', ustr ''u1'', ustr ''c1'', ustr ''si''],
                   [ustr ''2'', ustr ''u2'', ustr ''c2'', ustr ''no'']] ! i) (i + 1))"
proof -
  let ?h = "[ustr ''ID'', ustr ''Usuario'', ustr ''CIC'', ustr ''Registrado'']"
  let ?g = "[?h, [ustr ''1'', ustr ''u1'', ustr ''c1'', ustr ''si''],
             [ustr ''2'', ustr ''u2'', ustr ''c2'', ustr ''no'']]"
  let ?C = "\<lparr>disp_usuario = ustr ''u2'', disp_cic = ustr ''c2'', disp_row_index = 3\<rparr>"
  have ic: "find_col_idx ucd_excerpt ?h (ustr ''CIC'') = 2" by code_simp
  have iu: "find_col_idx ucd_excerpt ?h (ustr ''Usuario'') = 1" by code_simp
  have ir: "find_col_idx ucd_excerpt ?h (ustr ''Registrado'') = 3" by code_simp
  have g0: "?g ! 0 = ?h" by simp
  have len: "length ?g = 3" by simp
  have ne: "?g \<noteq> []" by simp
  note t = obtener_usuario_cic_disponible_first_row[of ucd_excerpt ?g, unfolded Let_def g0 ic iu ir len]
  from t have e: "obtener_usuario_cic_disponible ucd_excerpt ?g = Some ?C"
    by (rule conjunct2)
  from t have "?g \<noteq> [] \<and> (0::int) \<le> 2 \<and> (0::int) \<le> 1 \<and> (0::int) \<le> 3 \<longrightarrow>
      (\<forall>c. obtener_usuario_cic_disponible ucd_excerpt ?g = Some c \<longleftrightarrow>
             (\<exists>i. 1 \<le> i \<and> i < 3
                \<and> fila_disponible ucd_excerpt 2 1 3 (?g ! i)
                \<and> (\<forall>j. 1 \<le> j \<and> j < i \<longrightarrow> \<not> fila_disponible ucd_excerpt 2 1 3 (?g ! j))
                \<and> c = credencial ucd_excerpt 2 1 (?g ! i) (i + 1)))"
    by blast
  moreover have "?g \<noteq> [] \<and> (0::int) \<le> 2 \<and> (0::int) \<le> 1 \<and> (0::int) \<le> 3"
    using ne by simp
  ultimately have "\<forall>c. obtener_usuario_cic_disponible ucd_excerpt ?g = Some c \<longleftrightarrow>
             (\<exists>i. 1 \<le> i \<and> i < 3
                \<and> fila_disponible ucd_excerpt 2 1 3 (?g ! i)
                \<and> (\<forall>j. 1 \<le> j \<and> j < i \<longrightarrow> \<not> fila_disponible ucd_excerpt 2 1 3 (?g ! j))
                \<and> c = credencial ucd_excerpt 2 1 (?g ! i) (i + 1))"
    by (rule mp)
  then have "obtener_usuario_cic_disponible ucd_excerpt ?g = Some ?C \<longleftrightarrow>
             (\<exists>i. 1 \<le> i \<and> i < 3
                \<and> fila_disponible ucd_excerpt 2 1 3 (?g ! i)
                \<and> (\<forall>j. 1 \<le> j \<and> j < i \<longrightarrow> \<not> fila_disponible ucd_excerpt 2 1 3 (?g ! j))
                \<and> ?C = credencial ucd_excerpt 2 1 (?g ! i) (i + 1))"
    by (rule spec)
  with e have "\<exists>i. 1 \<le> i \<and> i < 3
                \<and> fila_disponible ucd_excerpt 2 1 3 (?g ! i)
                \<and> (\<forall>j. 1 \<le> j \<and> j < i \<longrightarrow> \<not> fila_disponible ucd_excerpt 2 1 3 (?g ! j))
                \<and> ?C = credencial ucd_excerpt 2 1 (?g ! i) (i + 1)"
    by blast
  then have "\<exists>i. 1 \<le> i \<and> i < 3
                \<and> fila_disponible ucd_excerpt 2 1 3 (?g ! i)
                \<and> ?C = credencial ucd_excerpt 2 1 (?g ! i) (i + 1)"
    by blast
  with ne ic iu ir show ?thesis by blast
qed

section \<open>Loading the sheet\<close>

lemma load_data_from_sheet_example:
  "pick_header_index ucd_excerpt
     [[[], [], []], [ustr ''Title''], [ustr ''ID'', ustr ''Name'', ustr ''CIC'', ustr ''Registrado''],
      [ustr ''1'', ustr ''Ana'', ustr ''C1'', ustr ''no'']] = 2
   \<and> load_data_from_sheet ucd_excerpt
     [[[], [], []], [ustr ''Title''], [ustr ''ID'', ustr ''Name'', ustr ''CIC'', ustr ''Registrado''],
      [ustr ''1'', ustr ''Ana'', ustr ''C1'', ustr ''no'']]
     = [[(ustr ''ID'', ustr ''1''), (ustr ''Name'', ustr ''Ana''), (ustr ''CIC'', ustr ''C1''),
         (ustr ''Registrado'', ustr ''no'')]]"
  by code_simp

text \<open>
  Claim C7 says the derived column names are pairwise distinct. The loop that numbers
  duplicates does not record the names it makes up: with the header row A, A, A_2 the second
  column is renamed A_2, which the third column then takes as well, and the record of a data
  row loses the cell of the second column.
\<close>

theorem load_data_from_sheet_repeats_a_made_up_name:
  "sheet_headers ucd_excerpt
     [[ustr ''A'', ustr ''A'', ustr ''A_2''], [ustr ''1'', ustr ''2'', ustr ''3'']]
     = [ustr ''A'', ustr ''A_2'', ustr ''A_2'']
   \<and> \<not> distinct (sheet_headers ucd_excerpt
          [[ustr ''A'', ustr ''A'', ustr ''A_2''], [ustr ''1'', ustr ''2'', ustr ''3'']])
   \<and> load_data_from_sheet ucd_excerpt
        [[ustr ''A'', ustr ''A'', ustr ''A_2''], [ustr ''1'', ustr ''2'', ustr ''3'']]
      = [[(ustr ''A'', ustr ''1''), (ustr ''A_2'', ustr ''3'')]]"
  by code_simp

section \<open>Matching by name\<close>

lemma findall_runs_Nil:
  "findall_runs P cur s = [] \<longleftrightarrow> cur = [] \<and> \<not> list_ex P s"
  by (induction s arbitrary: cur) auto

lemma name_tokens_Nil: "name_tokens U v = [] \<longleftrightarrow> sin_alfanumericos U v"
  by (simp add: name_tokens_def sin_alfanumericos_def findall_runs_Nil)

lemma Counter_Nil: "Counter xs = [] \<longleftrightarrow> xs = []"
proof
  assume "Counter xs = []"
  then have "map_of (Counter xs) = Map.empty" by simp
  then have "\<forall>k. count_list xs k = 0"
    by (metis map_of_Counter option.distinct(1))
  then show "xs = []" by (cases xs) (auto dest: spec[of _ "hd xs"])
next
  assume "xs = []"
  then show "Counter xs = []" by (simp add: Counter_def)
qed

lemma dict_eq_Nil: "dict_eq a [] \<longleftrightarrow> a = []"
  by (auto simp: dict_eq_def)

lemma signature_blank:
  "sin_alfanumericos U q \<Longrightarrow>
     dict_eq (name_signature U v) (name_signature U q) \<longleftrightarrow> sin_alfanumericos U v"
  by (simp add: name_signature_Counter name_tokens_Nil[symmetric] Counter_Nil[THEN iffD2] dict_eq_Nil Counter_Nil)

lemma encontrar_en_filas_blank:
  assumes "sin_alfanumericos U q"
  shows "encontrar_en_filas U (name_signature U q) rows
       = map_option (match_de_fila U) (find (fila_sin_nombre U) rows)"
proof (induction rows)
  case Nil
  then show ?case by simp
next
  case (Cons r rows)
  then show ?case
    by (auto simp: fila_sin_nombre_def signature_blank[OF assms] split: option.splits)
qed

text \<open>
  Claim C10. When the query name has no alphanumeric character (the empty string is one
  such), and some loaded row has a name column that is found and whose cell has none
  either, \<open>encontrar_abonado_por_nombre\<close> does not return \<open>None\<close>: both signatures are the
  empty counter, and the first such row is returned as the match, with the row itself, its
  subscriber number, its CIC and its user.
\<close>

theorem encontrar_abonado_por_nombre_blank_query:
  assumes "sin_alfanumericos U q"
    and "\<exists>r \<in> set (load_data_from_sheet U values). fila_sin_nombre U r"
  shows "name_signature U q = []
       \<and> (\<exists>i < length (load_data_from_sheet U values).
            fila_sin_nombre U (load_data_from_sheet U values ! i)
          \<and> (\<forall>j < i. \<not> fila_sin_nombre U (load_data_from_sheet U values ! j))
          \<and> encontrar_abonado_por_nombre U values q
              = Some (match_de_fila U (load_data_from_sheet U values ! i))
          \<and> (\<exists>m. encontrar_abonado_por_nombre U values q = Some m
                \<and> match_row m = load_data_from_sheet U values ! i
                \<and> match_abonado m = get_abonado_num U (load_data_from_sheet U values ! i)
                \<and> match_cic m =
                    (case find_key U (load_data_from_sheet U values ! i) [ustr ''CIC''] of
                       None \<Rightarrow> []
                     | Some key_cic \<Rightarrow>
                         if key_cic = [] then []
                         else strip U (dict_get (load_data_from_sheet U values ! i) key_cic []))
                \<and> match_usuario m =
                    (case find_key U (load_data_from_sheet U values ! i)
                            [ustr ''Usuario'', ustr ''Usuario GP'', ustr ''Usuario GigaredPlay'',
                             ustr ''User''] of
                       None \<Rightarrow> []
                     | Some key_usuario \<Rightarrow>
                         if key_usuario = [] then []
                         else strip U (dict_get (load_data_from_sheet U values ! i) key_usuario []))))"
proof -
  let ?rows = "load_data_from_sheet U values"
  from assms(2) obtain r where "find (fila_sin_nombre U) ?rows = Some r"
    by (cases "find (fila_sin_nombre U) ?rows") (auto simp: find_None_iff)
  then obtain i where i: "i < length ?rows" "fila_sin_nombre U (?rows ! i)" "r = ?rows ! i"
    "\<forall>j < i. \<not> fila_sin_nombre U (?rows ! j)"
    unfolding find_Some_iff by blast
  have e: "encontrar_abonado_por_nombre U values q = Some (match_de_fila U r)"
    unfolding encontrar_abonado_por_nombre_def encontrar_en_filas_blank[OF assms(1)]
    using \<open>find (fila_sin_nombre U) ?rows = Some r\<close> by simp
  have s: "name_signature U q = []"
    using assms(1) by (simp add: name_signature_Counter name_tokens_Nil[symmetric] Counter_Nil)
  have f: "match_row (match_de_fila U r) = r"
    "match_abonado (match_de_fila U r) = get_abonado_num U r"
    "match_cic (match_de_fila U r) =
       (case find_key U r [ustr ''CIC''] of
          None \<Rightarrow> []
        | Some key_cic \<Rightarrow> if key_cic = [] then [] else strip U (dict_get r key_cic []))"
    "match_usuario (match_de_fila U r) =
       (case find_key U r [ustr ''Usuario'', ustr ''Usuario GP'', ustr ''Usuario GigaredPlay'',
                           ustr ''User''] of
          None \<Rightarrow> []
        | Some key_usuario \<Rightarrow>
            if key_usuario = [] then [] else strip U (dict_get r key_usuario []))"
    by (simp_all add: match_de_fila_def)
  from e f have "\<exists>m. encontrar_abonado_por_nombre U values q = Some m
                \<and> match_row m = r
                \<and> match_abonado m = get_abonado_num U r
                \<and> match_cic m =
                    (case find_key U r [ustr ''CIC''] of
                       None \<Rightarrow> []
                     | Some key_cic \<Rightarrow> if key_cic = [] then [] else strip U (dict_get r key_cic []))
                \<and> match_usuario m =
                    (case find_key U r [ustr ''Usuario'', ustr ''Usuario GP'',
                                        ustr ''Usuario GigaredPlay'', ustr ''User''] of
                       None \<Rightarrow> []
                     | Some key_usuario \<Rightarrow>
                         if key_usuario = [] then [] else strip U (dict_get r key_usuario []))"
    by blast
  with e s i show ?thesis by blast
qed

theorem encontrar_abonado_por_nombre_blank_query_witness:
  "sin_alfanumericos ucd_excerpt []
   \<and> load_data_from_sheet ucd_excerpt
        [[ustr ''Nombre'', ustr ''CIC'', ustr ''Usuario''],
         [ustr ''Ana'', ustr ''c1'', ustr ''u1''],
         [[], ustr ''c2'', ustr ''u2'']]
      = [[(ustr ''Nombre'', ustr ''Ana''), (ustr ''CIC'', ustr ''c1''), (ustr ''Usuario'', ustr ''u1'')],
         [(ustr ''Nombre'', []), (ustr ''CIC'', ustr ''c2''), (ustr ''Usuario'', ustr ''u2'')]]
   \<and> fila_sin_nombre ucd_excerpt
        [(ustr ''Nombre'', []), (ustr ''CIC'', ustr ''c2''), (ustr ''Usuario'', ustr ''u2'')]
   \<and> \<not> fila_sin_nombre ucd_excerpt
        [(ustr ''Nombre'', ustr ''Ana''), (ustr ''CIC'', ustr ''c1''), (ustr ''Usuario'', ustr ''u1'')]
   \<and> encontrar_abonado_por_nombre ucd_excerpt
        [[ustr ''Nombre'', ustr ''CIC'', ustr ''Usuario''],
         [ustr ''Ana'', ustr ''c1'', ustr ''u1''],
         [[], ustr ''c2'', ustr ''u2'']] []
      = Some \<lparr>match_abonado = [],
              match_row = [(ustr ''Nombre'', []), (ustr ''CIC'', ustr ''c2''), (ustr ''Usuario'', ustr ''u2'')],
              match_cic = ustr ''c2'',
              match_usuario = ustr ''u2''\<rparr>"
proof -
  let ?g = "[[ustr ''Nombre'', ustr ''CIC'', ustr ''Usuario''],
         [ustr ''Ana'', ustr ''c1'', ustr ''u1''],
         [[], ustr ''c2'', ustr ''u2'']]"
  let ?r1 = "[(ustr ''Nombre'', ustr ''Ana''), (ustr ''CIC'', ustr ''c1''), (ustr ''Usuario'', ustr ''u1'')]"
  let ?r2 = "[(ustr ''Nombre'', []), (ustr ''CIC'', ustr ''c2''), (ustr ''Usuario'', ustr ''u2'')]"
  have q: "sin_alfanumericos ucd_excerpt []" by (simp add: sin_alfanumericos_def)
  have l: "load_data_from_sheet ucd_excerpt ?g = [?r1, ?r2]" by code_simp
  have b2: "fila_sin_nombre ucd_excerpt ?r2" by code_simp
  have b1: "\<not> fila_sin_nombre ucd_excerpt ?r1" by code_simp
  have ab: "get_abonado_num ucd_excerpt ?r2 = []" by code_simp
  have ci: "(case find_key ucd_excerpt ?r2 [ustr ''CIC''] of
               None \<Rightarrow> []
             | Some key_cic \<Rightarrow> if key_cic = [] then [] else strip ucd_excerpt (dict_get ?r2 key_cic []))
            = ustr ''c2''" by code_simp
  have us: "(case find_key ucd_excerpt ?r2 [ustr ''Usuario'', ustr ''Usuario GP'',
                                            ustr ''Usuario GigaredPlay'', ustr ''User''] of
               None \<Rightarrow> []
             | Some key_usuario \<Rightarrow>
                 if key_usuario = [] then [] else strip ucd_excerpt (dict_get ?r2 key_usuario []))
            = ustr ''u2''" by code_simp
  have ex: "\<exists>r \<in> set (load_data_from_sheet ucd_excerpt ?g). fila_sin_nombre ucd_excerpt r"
    unfolding l using b2 by simp
  from encontrar_abonado_por_nombre_blank_query[OF q ex, unfolded l]
  obtain i m where i: "i < length [?r1, ?r2]" "fila_sin_nombre ucd_excerpt ([?r1, ?r2] ! i)"
    and m: "encontrar_abonado_por_nombre ucd_excerpt ?g [] = Some m"
      "match_row m = [?r1, ?r2] ! i"
      "match_abonado m = get_abonado_num ucd_excerpt ([?r1, ?r2] ! i)"
      "match_cic m =
         (case find_key ucd_excerpt ([?r1, ?r2] ! i) [ustr ''CIC''] of
            None \<Rightarrow> []
          | Some key_cic \<Rightarrow>
              if key_cic = [] then [] else strip ucd_excerpt (dict_get ([?r1, ?r2] ! i) key_cic []))"
      "match_usuario m =
         (case find_key ucd_excerpt ([?r1, ?r2] ! i)
                 [ustr ''Usuario'', ustr ''Usuario GP'', ustr ''Usuario GigaredPlay'', ustr ''User''] of
            None \<Rightarrow> []
          | Some key_usuario \<Rightarrow>
              if key_usuario = [] then []
              else strip ucd_excerpt (dict_get ([?r1, ?r2] ! i) key_usuario []))"
    by blast
  from i(1) have "i = 0 \<or> i = 1" by auto
  with i(2) b1 have i1: "i = 1" by auto
  have n: "[?r1, ?r2] ! 1 = ?r2" by simp
  from m(2-5) have "match_row m = ?r2" "match_abonado m = []" "match_cic m = ustr ''c2''"
    "match_usuario m = ustr ''u2''"
    unfolding i1 n ab ci us by simp_all
  then have "m = \<lparr>match_abonado = [], match_row = ?r2, match_cic = ustr ''c2'',
                  match_usuario = ustr ''u2''\<rparr>"
    by (cases m) simp
  with m(1) have "encontrar_abonado_por_nombre ucd_excerpt ?g []
      = Some \<lparr>match_abonado = [], match_row = ?r2, match_cic = ustr ''c2'', match_usuario = ustr ''u2''\<rparr>"
    by simp
  with q l b1 b2 show ?thesis by blast
qed

section \<open>Reconciliation\<close>

lemma api_cliente_fields:
  "ya_tiene_usuario (api_cliente U tv_loaded hm hp alta data)
     = (tv_loaded \<and> (\<exists>values. hm = Some values
          \<and> encontrar_abonado_por_nombre U values (Nombre data) \<noteq> None))"
  "ya_tiene_usuario (api_cliente U tv_loaded hm hp alta data) \<Longrightarrow>
     UsuarioPropuesto (api_cliente U tv_loaded hm hp alta data) = []
     \<and> CICPropuesto (api_cliente U tv_loaded hm hp alta data) = []
     \<and> fila_propuesta (api_cliente U tv_loaded hm hp alta data) = None"
  "\<not> ya_tiene_usuario (api_cliente U tv_loaded hm hp alta data) \<Longrightarrow>
     abonado_sheet (api_cliente U tv_loaded hm hp alta data) = []
     \<and> usuario_sheet (api_cliente U tv_loaded hm hp alta data) = []
     \<and> cic_sheet (api_cliente U tv_loaded hm hp alta data) = []"
  by (auto simp: api_cliente_def Let_def cliente.defs respuesta.defs split: option.splits)

text \<open>
  Claim C9. The result of \<open>api_cliente\<close> never holds both a match and a proposed credential:
  when \<open>ya_tiene_usuario\<close> is set, \<open>UsuarioPropuesto\<close> and \<open>CICPropuesto\<close> are empty and
  \<open>fila_propuesta\<close> is absent; when a credential is proposed, \<open>ya_tiene_usuario\<close> is false and
  \<open>abonado_sheet\<close>, \<open>usuario_sheet\<close> and \<open>cic_sheet\<close> are empty. \<open>ya_tiene_usuario\<close> is set
  exactly when \<open>encontrar_abonado_por_nombre\<close> returned a row.
\<close>

theorem api_cliente_match_excludes_proposal:
  "(ya_tiene_usuario (api_cliente U tv_loaded hm hp alta data) \<longrightarrow>
      UsuarioPropuesto (api_cliente U tv_loaded hm hp alta data) = []
      \<and> CICPropuesto (api_cliente U tv_loaded hm hp alta data) = []
      \<and> fila_propuesta (api_cliente U tv_loaded hm hp alta data) = None)
   \<and> (UsuarioPropuesto (api_cliente U tv_loaded hm hp alta data) \<noteq> []
        \<or> CICPropuesto (api_cliente U tv_loaded hm hp alta data) \<noteq> []
        \<or> fila_propuesta (api_cliente U tv_loaded hm hp alta data) \<noteq> None \<longrightarrow>
      \<not> ya_tiene_usuario (api_cliente U tv_loaded hm hp alta data)
      \<and> abonado_sheet (api_cliente U tv_loaded hm hp alta data) = []
      \<and> usuario_sheet (api_cliente U tv_loaded hm hp alta data) = []
      \<and> cic_sheet (api_cliente U tv_loaded hm hp alta data) = [])
   \<and> (ya_tiene_usuario (api_cliente U tv_loaded hm hp alta data) \<longleftrightarrow>
        tv_loaded \<and> (\<exists>values. hm = Some values
          \<and> encontrar_abonado_por_nombre U values (Nombre data) \<noteq> None))"
proof (intro conjI)
  show "ya_tiene_usuario (api_cliente U tv_loaded hm hp alta data) \<longrightarrow>
      UsuarioPropuesto (api_cliente U tv_loaded hm hp alta data) = []
      \<and> CICPropuesto (api_cliente U tv_loaded hm hp alta data) = []
      \<and> fila_propuesta (api_cliente U tv_loaded hm hp alta data) = None"
    using api_cliente_fields(2)[of U tv_loaded hm hp alta data] by blast
  show "UsuarioPropuesto (api_cliente U tv_loaded hm hp alta data) \<noteq> []
        \<or> CICPropuesto (api_cliente U tv_loaded hm hp alta data) \<noteq> []
        \<or> fila_propuesta (api_cliente U tv_loaded hm hp alta data) \<noteq> None \<longrightarrow>
      \<not> ya_tiene_usuario (api_cliente U tv_loaded hm hp alta data)
      \<and> abonado_sheet (api_cliente U tv_loaded hm hp alta data) = []
      \<and> usuario_sheet (api_cliente U tv_loaded hm hp alta data) = []
      \<and> cic_sheet (api_cliente U tv_loaded hm hp alta data) = []"
    using api_cliente_fields(2,3)[of U tv_loaded hm hp alta data]
    by (cases "ya_tiene_usuario (api_cliente U tv_loaded hm hp alta data)") auto
  show "ya_tiene_usuario (api_cliente U tv_loaded hm hp alta data) \<longleftrightarrow>
        tv_loaded \<and> (\<exists>values. hm = Some values
          \<and> encontrar_abonado_por_nombre U values (Nombre data) \<noteq> None)"
    by (rule api_cliente_fields(1))
qed

theorem api_cliente_match_excludes_proposal_witness:
  "ya_tiene_usuario (api_cliente ucd_excerpt True
      (Some [[ustr ''Nombre'', ustr ''CIC'', ustr ''Usuario'', ustr ''Registrado''],
             [ustr ''Ana Paz'', ustr ''c1'', ustr ''u1'', ustr ''si''],
             [[], ustr ''c2'', ustr ''u2'', ustr ''no'']])
      (Some [[ustr ''Nombre'', ustr ''CIC'', ustr ''Usuario'', ustr ''Registrado''],
             [ustr ''Ana Paz'', ustr ''c1'', ustr ''u1'', ustr ''si''],
             [[], ustr ''c2'', ustr ''u2'', ustr ''no'']])
      [] \<lparr>ID = ustr ''7'', Nombre = ustr ''PAZ ANA'', DNI = [], Mail = [], Contrasena = ustr ''pa'',
          TV = False, HBO = False, Pack_Futbol = False, Estado = [], EstadoCode = ustr ''desconocido'',
          via = ustr ''masiva''\<rparr>)
   \<and> UsuarioPropuesto (api_cliente ucd_excerpt True
      (Some [[ustr ''Nombre'', ustr ''CIC'', ustr ''Usuario'', ustr ''Registrado''],
             [ustr ''Ana Paz'', ustr ''c1'', ustr ''u1'', ustr ''si''],
             [[], ustr ''c2'', ustr ''u2'', ustr ''no'']])
      (Some [[ustr ''Nombre'', ustr ''CIC'', ustr ''Usuario'', ustr ''Registrado''],
             [ustr ''Ana Paz'', ustr ''c1'', ustr ''u1'', ustr ''si''],
             [[], ustr ''c2'', ustr ''u2'', ustr ''no'']])
      [] \<lparr>ID = ustr ''7'', Nombre = ustr ''PAZ ANA'', DNI = [], Mail = [], Contrasena = ustr ''pa'',
          TV = False, HBO = False, Pack_Futbol = False, Estado = [], EstadoCode = ustr ''desconocido'',
          via = ustr ''masiva''\<rparr>) = []
   \<and> UsuarioPropuesto (api_cliente ucd_excerpt True
      (Some [[ustr ''Nombre'', ustr ''CIC'', ustr ''Usuario'', ustr ''Registrado''],
             [ustr ''Ana Paz'', ustr ''c1'', ustr ''u1'', ustr ''si''],
             [[], ustr ''c2'', ustr ''u2'', ustr ''no'']])
      (Some [[ustr ''Nombre'', ustr ''CIC'', ustr ''Usuario'', ustr ''Registrado''],
             [ustr ''Ana Paz'', ustr ''c1'', ustr ''u1'', ustr ''si''],
             [[], ustr ''c2'', ustr ''u2'', ustr ''no'']])
      [] \<lparr>ID = ustr ''8'', Nombre = ustr ''Luis Rey'', DNI = [], Mail = [], Contrasena = ustr ''lr'',
          TV = False, HBO = False, Pack_Futbol = False, Estado = [], EstadoCode = ustr ''desconocido'',
          via = ustr ''masiva''\<rparr>) = ustr ''u2''
   \<and> \<not> ya_tiene_usuario (api_cliente ucd_excerpt True
      (Some [[ustr ''Nombre'', ustr ''CIC'', ustr ''Usuario'', ustr ''Registrado''],
             [ustr ''Ana Paz'', ustr ''c1'', ustr ''u1'', ustr ''si''],
             [[], ustr ''c2'', ustr ''u2'', ustr ''no'']])
      (Some [[ustr ''Nombre'', ustr ''CIC'', ustr ''Usuario'', ustr ''Registrado''],
             [ustr ''Ana Paz'', ustr ''c1'', ustr ''u1'', ustr ''si''],
             [[], ustr ''c2'', ustr ''u2'', ustr ''no'']])
      [] \<lparr>ID = ustr ''8'', Nombre = ustr ''Luis Rey'', DNI = [], Mail = [], Contrasena = ustr ''lr'',
          TV = False, HBO = False, Pack_Futbol = False, Estado = [], EstadoCode = ustr ''desconocido'',
          via = ustr ''masiva''\<rparr>)"
proof -
  let ?g = "[[ustr ''Nombre'', ustr ''CIC'', ustr ''Usuario'', ustr ''Registrado''],
             [ustr ''Ana Paz'', ustr ''c1'', ustr ''u1'', ustr ''si''],
             [[], ustr ''c2'', ustr ''u2'', ustr ''no'']]"
  let ?ana = "\<lparr>ID = ustr ''7'', Nombre = ustr ''PAZ ANA'', DNI = [], Mail = [], Contrasena = ustr ''pa'',
          TV = False, HBO = False, Pack_Futbol = False, Estado = [], EstadoCode = ustr ''desconocido'',
          via = ustr ''masiva''\<rparr>"
  let ?luis = "\<lparr>ID = ustr ''8'', Nombre = ustr ''Luis Rey'', DNI = [], Mail = [], Contrasena = ustr ''lr'',
          TV = False, HBO = False, Pack_Futbol = False, Estado = [], EstadoCode = ustr ''desconocido'',
          via = ustr ''masiva''\<rparr>"
  have a: "ya_tiene_usuario (api_cliente ucd_excerpt True (Some ?g) (Some ?g) [] ?ana)"
    by code_simp
  have l: "UsuarioPropuesto (api_cliente ucd_excerpt True (Some ?g) (Some ?g) [] ?luis) = ustr ''u2''"
    by code_simp
  then have l': "UsuarioPropuesto (api_cliente ucd_excerpt True (Some ?g) (Some ?g) [] ?luis) \<noteq> []"
    by (simp add: ustr_def)
  from api_cliente_match_excludes_proposal[of ucd_excerpt True "Some ?g" "Some ?g" "[]" ?ana] a
  have 1: "UsuarioPropuesto (api_cliente ucd_excerpt True (Some ?g) (Some ?g) [] ?ana) = []"
    by blast
  from api_cliente_match_excludes_proposal[of ucd_excerpt True "Some ?g" "Some ?g" "[]" ?luis] l'
  have 2: "\<not> ya_tiene_usuario (api_cliente ucd_excerpt True (Some ?g) (Some ?g) [] ?luis)"
    by blast
  from a 1 l 2 show ?thesis by blast
qed

section \<open>Copies and the store\<close>

lemma build_prefix:
  "build t h = (h1, v) \<Longrightarrow> prefix h h1 \<and> length h1 = length h + nodes t"
  "build_list ts h = (h1, vs) \<Longrightarrow> prefix h h1 \<and> length h1 = length h + nodes_list ts"
  "build_items kts h = (h1, kvs) \<Longrightarrow> prefix h h1 \<and> length h1 = length h + nodes_items kts"
proof (induction t h and ts h and kts h arbitrary: h1 v and h1 vs and h1 kvs
    rule: build_build_list_build_items.induct)
  case (1 v h)
  then show ?case by simp
next
  case (2 ts h)
  then show ?case by (auto split: prod.splits)
next
  case (3 kts h)
  then show ?case by (auto split: prod.splits)
next
  case (4 h)
  then show ?case by simp
next
  case (5 t ts h)
  from 5(3) obtain ha v' hb vs' where a: "build t h = (ha, v')"
    and b: "build_list ts ha = (hb, vs')" and e: "h1 = hb"
    by (auto split: prod.splits)
  from 5(1)[OF a] 5(2)[OF a[symmetric] b] e show ?case
    by (auto intro: prefix_order.trans)
next
  case (6 h)
  then show ?case by simp
next
  case (7 kt kts h)
  from 7(3) obtain ha v' hb kvs' where a: "build (snd kt) h = (ha, v')"
    and b: "build_items kts ha = (hb, kvs')" and e: "h1 = hb"
    by (auto split: prod.splits)
  from 7(1)[OF a] 7(2)[OF a[symmetric] b] e show ?case
    by (auto intro: prefix_order.trans)
qed

lemma reify_wf:
  "reify n h v = Some t \<Longrightarrow> wf_tree t"
  "reify_list n h vs = Some ts \<Longrightarrow> wf_list ts"
  "reify_items n h kvs = Some kts \<Longrightarrow> wf_items kts"
proof (induction n h v and n h vs and n h kvs arbitrary: t and ts and kts
    rule: reify_reify_list_reify_items.induct)
  case (1 n h a)
  then show ?case
    by (auto split: nat.splits if_splits pyobj.splits)
next
  case (7 n h v vs)
  then show ?case by (auto split: option.splits)
next
  case (9 n h kv kvs)
  then show ?case by (auto split: option.splits)
qed (auto simp: atom_def)

lemma prefix_nth: "prefix xs ys \<Longrightarrow> a < length xs \<Longrightarrow> ys ! a = xs ! a"
  by (auto simp: prefix_def nth_append)

lemma agree_prefix:
  "prefix ha hb \<Longrightarrow> agree lo (length hb) hb h2 \<Longrightarrow> agree lo (length ha) ha h2"
  unfolding agree_def using prefix_nth[of ha hb] prefix_length_le[of ha hb] by auto

lemma agree_lo: "agree lo hi h h2 \<Longrightarrow> lo \<le> lo' \<Longrightarrow> agree lo' hi h h2"
  by (auto simp: agree_def)

lemma agree_snoc:
  "agree lo (Suc (length h')) (h' @ [x]) h2 \<Longrightarrow> lo \<le> length h' \<Longrightarrow>
     agree lo (length h') h' h2 \<and> length h' < length h2 \<and> h2 ! length h' = x"
  unfolding agree_def
proof (intro conjI allI impI)
  assume a: "Suc (length h') \<le> length (h' @ [x]) \<and> Suc (length h') \<le> length h2
     \<and> (\<forall>a. lo \<le> a \<and> a < Suc (length h') \<longrightarrow> h2 ! a = (h' @ [x]) ! a)" and l: "lo \<le> length h'"
  show "length h' \<le> length h'" by simp
  from a show "length h' \<le> length h2" by simp
  from a show "length h' < length h2" by simp
  from a l have "h2 ! length h' = (h' @ [x]) ! length h'" by simp
  then show "h2 ! length h' = x" by simp
  fix b assume b: "lo \<le> b \<and> b < length h'"
  with a have "h2 ! b = (h' @ [x]) ! b" by simp
  with b show "h2 ! b = h' ! b" by (simp add: nth_append)
qed

lemma reify_atom: "atom v \<Longrightarrow> reify n h v = Some (Leaf v)"
  by (cases v) (auto simp: atom_def)

lemma build_reify:
  "build t h = (h1, v) \<Longrightarrow> wf_tree t \<Longrightarrow> agree (length h) (length h1) h1 h2 \<Longrightarrow>
     nodes t \<le> n \<Longrightarrow> reify n h2 v = Some t"
  "build_list ts h = (h1, vs) \<Longrightarrow> wf_list ts \<Longrightarrow> agree (length h) (length h1) h1 h2 \<Longrightarrow>
     nodes_list ts \<le> n \<Longrightarrow> reify_list n h2 vs = Some ts"
  "build_items kts h = (h1, kvs) \<Longrightarrow> wf_items kts \<Longrightarrow> agree (length h) (length h1) h1 h2 \<Longrightarrow>
     nodes_items kts \<le> n \<Longrightarrow> reify_items n h2 kvs = Some kts"
proof (induction t h and ts h and kts h arbitrary: h1 v n and h1 vs n and h1 kvs n
    rule: build_build_list_build_items.induct)
  case (1 v h)
  then show ?case by (simp add: reify_atom)
next
  case (2 ts h)
  from 2(2) obtain h' vs where b: "build_list ts h = (h', vs)"
    and h1: "h1 = h' @ [OList vs]" and v: "v = VRef (length h')"
    by (auto split: prod.splits)
  from build_prefix(2)[OF b] have le: "length h \<le> length h'" by simp
  from 2(4) have "agree (length h) (Suc (length h')) (h' @ [OList vs]) h2"
    unfolding h1 by simp
  from agree_snoc[OF this le] have ag: "agree (length h) (length h') h' h2"
    and lt: "length h' < length h2" and at: "h2 ! length h' = OList vs" by auto
  from 2(5) obtain m where n: "n = Suc m" and m: "nodes_list ts \<le> m" by (cases n) auto
  from 2(3) have "wf_list ts" by simp
  from 2(1)[OF b this ag m] show ?case unfolding v n using lt at by simp
next
  case (3 kts h)
  from 3(2) obtain h' kvs where b: "build_items kts h = (h', kvs)"
    and h1: "h1 = h' @ [ODict kvs]" and v: "v = VRef (length h')"
    by (auto split: prod.splits)
  from build_prefix(3)[OF b] have le: "length h \<le> length h'" by simp
  from 3(4) have "agree (length h) (Suc (length h')) (h' @ [ODict kvs]) h2"
    unfolding h1 by simp
  from agree_snoc[OF this le] have ag: "agree (length h) (length h') h' h2"
    and lt: "length h' < length h2" and at: "h2 ! length h' = ODict kvs" by auto
  from 3(5) obtain m where n: "n = Suc m" and m: "nodes_items kts \<le> m" by (cases n) auto
  from 3(3) have "wf_items kts" by simp
  from 3(1)[OF b this ag m] show ?case unfolding v n using lt at by simp
next
  case (4 h)
  then show ?case by simp
next
  case (5 t ts h)
  from 5(3) obtain ha v' hb vs' where a: "build t h = (ha, v')"
    and b: "build_list ts ha = (hb, vs')" and e: "h1 = hb" "vs = v' # vs'"
    by (auto split: prod.splits)
  from build_prefix(1)[OF a] have pa: "prefix h ha" "length h \<le> length ha" by simp_all
  from build_prefix(2)[OF b] have pb: "prefix ha hb" by simp
  from 5(5) e have ag: "agree (length h) (length hb) hb h2" by simp
  have 1: "reify n h2 v' = Some t"
    using 5(4,6) by (intro 5(1)[OF a _ agree_prefix[OF pb ag]]) auto
  have 2: "reify_list n h2 vs' = Some ts"
    using 5(4,6) by (intro 5(2)[OF a[symmetric] b _ agree_lo[OF ag pa(2)]]) auto
  from 1 2 e show ?case by simp
next
  case (6 h)
  then show ?case by simp
next
  case (7 kt kts h)
  from 7(3) obtain ha v' hb kvs' where a: "build (snd kt) h = (ha, v')"
    and b: "build_items kts ha = (hb, kvs')" and e: "h1 = hb" "kvs = (fst kt, v') # kvs'"
    by (auto split: prod.splits)
  from build_prefix(1)[OF a] have pa: "prefix h ha" "length h \<le> length ha" by simp_all
  from build_prefix(3)[OF b] have pb: "prefix ha hb" by simp
  from 7(5) e have ag: "agree (length h) (length hb) hb h2" by simp
  have 1: "reify n h2 v' = Some (snd kt)"
    using 7(4,6) by (intro 7(1)[OF a _ agree_prefix[OF pb ag]]) auto
  have 2: "reify_items n h2 kvs' = Some kts"
    using 7(4,6) by (intro 7(2)[OF a[symmetric] b _ agree_lo[OF ag pa(2)]]) auto
  from 1 2 e show ?case by simp
qed

lemma addrs_atom: "atom v \<Longrightarrow> addrs n h v = []"
  by (cases v) (auto simp: atom_def)

lemma build_addrs:
  "build t h = (h1, v) \<Longrightarrow> wf_tree t \<Longrightarrow> agree (length h) (length h1) h1 h2 \<Longrightarrow>
     set (addrs n h2 v) \<subseteq> {length h ..< length h1}"
  "build_list ts h = (h1, vs) \<Longrightarrow> wf_list ts \<Longrightarrow> agree (length h) (length h1) h1 h2 \<Longrightarrow>
     set (addrs_list n h2 vs) \<subseteq> {length h ..< length h1}"
  "build_items kts h = (h1, kvs) \<Longrightarrow> wf_items kts \<Longrightarrow> agree (length h) (length h1) h1 h2 \<Longrightarrow>
     set (addrs_items n h2 kvs) \<subseteq> {length h ..< length h1}"
proof (induction t h and ts h and kts h arbitrary: h1 v n and h1 vs n and h1 kvs n
    rule: build_build_list_build_items.induct)
  case (1 v h)
  then show ?case by (simp add: addrs_atom)
next
  case (2 ts h)
  from 2(2) obtain h' vs where b: "build_list ts h = (h', vs)"
    and h1: "h1 = h' @ [OList vs]" and v: "v = VRef (length h')"
    by (auto split: prod.splits)
  from build_prefix(2)[OF b] have le: "length h \<le> length h'" by simp
  from 2(4) have "agree (length h) (Suc (length h')) (h' @ [OList vs]) h2"
    unfolding h1 by simp
  from agree_snoc[OF this le] have ag: "agree (length h) (length h') h' h2"
    and lt: "length h' < length h2" and at: "h2 ! length h' = OList vs" by auto
  from 2(3) have w: "wf_list ts" by simp
  show ?case
  proof (cases n)
    case 0
    then show ?thesis unfolding v h1 using le by simp
  next
    case (Suc m)
    from 2(1)[OF b w ag, of m] show ?thesis unfolding v h1 Suc using le lt at by auto
  qed
next
  case (3 kts h)
  from 3(2) obtain h' kvs where b: "build_items kts h = (h', kvs)"
    and h1: "h1 = h' @ [ODict kvs]" and v: "v = VRef (length h')"
    by (auto split: prod.splits)
  from build_prefix(3)[OF b] have le: "length h \<le> length h'" by simp
  from 3(4) have "agree (length h) (Suc (length h')) (h' @ [ODict kvs]) h2"
    unfolding h1 by simp
  from agree_snoc[OF this le] have ag: "agree (length h) (length h') h' h2"
    and lt: "length h' < length h2" and at: "h2 ! length h' = ODict kvs" by auto
  from 3(3) have w: "wf_items kts" by simp
  show ?case
  proof (cases n)
    case 0
    then show ?thesis unfolding v h1 using le by simp
  next
    case (Suc m)
    from 3(1)[OF b w ag, of m] show ?thesis unfolding v h1 Suc using le lt at by auto
  qed
next
  case (4 h)
  then show ?case by simp
next
  case (5 t ts h)
  from 5(3) obtain ha v' hb vs' where a: "build t h = (ha, v')"
    and b: "build_list ts ha = (hb, vs')" and e: "h1 = hb" "vs = v' # vs'"
    by (auto split: prod.splits)
  from build_prefix(1)[OF a] have pa: "prefix h ha" "length h \<le> length ha" by simp_all
  from build_prefix(2)[OF b] have pb: "prefix ha hb" "length ha \<le> length hb" by simp_all
  from 5(5) e have ag: "agree (length h) (length hb) hb h2" by simp
  have 1: "set (addrs n h2 v') \<subseteq> {length h ..< length ha}"
    using 5(4) by (intro 5(1)[OF a _ agree_prefix[OF pb(1) ag]]) auto
  have 2: "set (addrs_list n h2 vs') \<subseteq> {length ha ..< length hb}"
    using 5(4) by (intro 5(2)[OF a[symmetric] b _ agree_lo[OF ag pa(2)]]) auto
  from 1 2 pa(2) pb(2) show ?case unfolding e by auto
next
  case (6 h)
  then show ?case by simp
next
  case (7 kt kts h)
  from 7(3) obtain ha v' hb kvs' where a: "build (snd kt) h = (ha, v')"
    and b: "build_items kts ha = (hb, kvs')" and e: "h1 = hb" "kvs = (fst kt, v') # kvs'"
    by (auto split: prod.splits)
  from build_prefix(1)[OF a] have pa: "prefix h ha" "length h \<le> length ha" by simp_all
  from build_prefix(3)[OF b] have pb: "prefix ha hb" "length ha \<le> length hb" by simp_all
  from 7(5) e have ag: "agree (length h) (length hb) hb h2" by simp
  have 1: "set (addrs n h2 v') \<subseteq> {length h ..< length ha}"
    using 7(4) by (intro 7(1)[OF a _ agree_prefix[OF pb(1) ag]]) auto
  have 2: "set (addrs_items n h2 kvs') \<subseteq> {length ha ..< length hb}"
    using 7(4) by (intro 7(2)[OF a[symmetric] b _ agree_lo[OF ag pa(2)]]) auto
  from 1 2 pa(2) pb(2) show ?case unfolding e by auto
qed

lemma agree_refl: "agree lo (length h) h h"
  by (simp add: agree_def)

lemma agree_append: "agree lo hi h h' \<Longrightarrow> agree lo hi h (h' @ new)"
  by (auto simp: agree_def nth_append)

lemma agree_prefix_right: "agree lo hi h h' \<Longrightarrow> prefix h' h'' \<Longrightarrow> agree lo hi h h''"
  by (auto simp: prefix_def agree_append)

lemma agree_update: "agree lo hi h h' \<Longrightarrow> hi \<le> a \<Longrightarrow> agree lo hi h (h'[a := x])"
  by (auto simp: agree_def)

text \<open>A deep copy of a stored structure, in any store where the structure is intact.\<close>

lemma deepcopy_stored:
  assumes b: "build t h = (h1, d)" and w: "wf_tree t"
    and ag: "agree (length h) (length h1) h1 h'"
  shows "\<exists>h2 r. deepcopy h' d = Inr (h2, r) \<and> build t h' = (h2, r)
           \<and> reify (length h2) h2 r = Some t
           \<and> set (addrs (length h2) h2 r) \<subseteq> {length h' ..< length h2}
           \<and> agree (length h) (length h1) h1 h2"
proof -
  from build_prefix(1)[OF b] have l1: "length h1 = length h + nodes t" by simp
  from ag have "length h1 \<le> length h'" by (simp add: agree_def)
  with l1 have n: "nodes t \<le> length h'" by simp
  have r: "reify (length h') h' d = Some t" using b w ag n by (rule build_reify(1))
  obtain h2 r where b2: "build t h' = (h2, r)" by (cases "build t h'")
  from build_prefix(1)[OF b2] have p2: "prefix h' h2" and l2: "length h2 = length h' + nodes t"
    by simp_all
  have "reify (length h2) h2 r = Some t"
    using b2 w agree_refl[of "length h'" h2] by (rule build_reify(1)) (simp add: l2)
  moreover have "set (addrs (length h2) h2 r) \<subseteq> {length h' ..< length h2}"
    using b2 w agree_refl[of "length h'" h2] by (rule build_addrs(1))
  moreover have "agree (length h) (length h1) h1 h2"
    using ag p2 by (rule agree_prefix_right)
  moreover have "deepcopy h' d = Inr (h2, r)"
    by (simp add: deepcopy_def r b2)
  ultimately show ?thesis using b2 by blast
qed

lemma tv_set_stores_copy:
  assumes "0 < ttl" and "reify (length h) h v = Some t"
  shows "\<exists>h1 d. tv_cache_set ttl t0 (h, c) k v = Inr (h1, AList.update k (t0, d) c)
           \<and> build t h = (h1, d)"
  using assms by (cases "build t h") (simp add: tv_cache_set_def deepcopy_def)

lemma tv_get_stored:
  assumes ttl: "0 < ttl" and b: "build t h = (h1, d)" and w: "wf_tree t"
    and ag: "agree (length h) (length h1) h1 h'"
    and age: "now - t0 \<le> ttl" and m: "map_of c1 k = Some (t0, d)"
  shows "\<exists>h2 r. tv_cache_get ttl now (h', c1) k = Inr (r, h2, c1)
           \<and> reify (length h2) h2 r = Some t
           \<and> set (addrs (length h2) h2 r) \<subseteq> {length h' ..< length h2}
           \<and> agree (length h) (length h1) h1 h2"
proof -
  from deepcopy_stored[OF b w ag] obtain h2 r where d: "deepcopy h' d = Inr (h2, r)"
    and r: "reify (length h2) h2 r = Some t"
      "set (addrs (length h2) h2 r) \<subseteq> {length h' ..< length h2}"
      "agree (length h) (length h1) h1 h2"
    by blast
  have "tv_cache_get ttl now (h', c1) k = Inr (r, h2, c1)"
    using ttl age m d by (simp add: tv_cache_get_def)
  with r show ?thesis by blast
qed

lemma ph_evict_keeps_last:
  "c \<noteq> [] \<Longrightarrow> ph_evict mx c \<noteq> [] \<and> last (ph_evict mx c) = last c"
proof (induction mx c rule: ph_evict.induct)
  case (1 m c)
  show ?case
  proof (cases "int (length c) > m \<and> m > 0")
    case True
    then have t: "tl c \<noteq> []" by (cases c) auto
    from 1(1)[OF True t] have "ph_evict m (tl c) \<noteq> [] \<and> last (ph_evict m (tl c)) = last (tl c)" .
    moreover have "last (tl c) = last c" using t by (cases c) auto
    moreover have "ph_evict m c = ph_evict m (tl c)" using True by (subst ph_evict.simps) simp
    ultimately show ?thesis by simp
  next
    case False
    then have "ph_evict m c = c" by (subst ph_evict.simps) auto
    with 1(2) show ?thesis by simp
  qed
qed

lemma map_of_snoc_fresh: "k \<notin> fst ` set xs \<Longrightarrow> map_of (xs @ [(k, e)]) k = Some e"
  by (induction xs) auto

lemma ph_set_stores_copy:
  assumes ttl: "0 < ttl" and dc: "distinct (map fst c)" and a: "a < length h" "h ! a = ODict kvs"
  shows "\<exists>c1. ph_cache_set ttl mx t0 (h, c) k (VRef a) = Inr (h @ [ODict kvs], c1)
           \<and> distinct (map fst c1) \<and> map_of c1 k = Some (t0, VRef (length h))"
proof -
  let ?c1 = "ph_purge_expired ttl t0 c"
  let ?c3 = "od_pop k ?c1 @ [(k, (t0, VRef (length h)))]"
  have s: "ph_cache_store ttl t0 (h, c) k (VRef a) = Inr (h @ [ODict kvs], ?c3)"
    using a by (simp add: ph_cache_store_def dict_copy_def move_update Let_def)
  then have set: "ph_cache_set ttl mx t0 (h, c) k (VRef a) = Inr (h @ [ODict kvs], ph_evict mx ?c3)"
    using ttl by (simp add: ph_cache_set_def)
  obtain P where P: "?c1 = filter P c" using ph_purge_expired_filter by blast
  have d1: "distinct (map fst ?c1)" unfolding P using dc by (simp add: distinct_map_filter)
  have nk: "k \<notin> fst ` set (od_pop k ?c1)" by (rule key_notin_od_pop)
  have d3: "distinct (map fst ?c3)" using distinct_od_pop[OF d1, of k] nk by auto
  obtain n where e: "ph_evict mx ?c3 = drop n ?c3" using ph_evict_suffix by blast
  have d: "distinct (map fst (ph_evict mx ?c3))"
    unfolding e drop_map[symmetric] using d3 by (rule distinct_drop)
  from ph_evict_keeps_last[of ?c3 mx] have ne: "ph_evict mx ?c3 \<noteq> []"
    and l: "last (ph_evict mx ?c3) = (k, (t0, VRef (length h)))" by simp_all
  then have "(k, (t0, VRef (length h))) \<in> set (ph_evict mx ?c3)"
    using last_in_set[OF ne] by simp
  with d have "map_of (ph_evict mx ?c3) k = Some (t0, VRef (length h))" by simp
  with set d show ?thesis by blast
qed

lemma ph_get_stored:
  assumes ttl: "0 < ttl" and dc: "distinct (map fst c1)"
    and m: "map_of c1 k = Some (t0, VRef s)" and age: "now - t0 \<le> ttl"
    and s: "s < length h'" "h' ! s = ODict kvs"
  shows "\<exists>c2. ph_cache_get ttl now (h', c1) k = Inr (VRef (length h'), h' @ [ODict kvs], c2)
           \<and> distinct (map fst c2) \<and> map_of c2 k = Some (t0, VRef s)"
proof -
  let ?c = "ph_purge_expired ttl now c1"
  have ks: "(k, (t0, VRef s)) \<in> set c1" using m by (rule map_of_SomeD)
  have exp: "k \<notin> fst ` set (filter (\<lambda>(key, (ts, _)). now - ts > ttl) c1)"
  proof
    assume "k \<in> fst ` set (filter (\<lambda>(key, (ts, _)). now - ts > ttl) c1)"
    then obtain ts x where in1: "(k, (ts, x)) \<in> set c1" and ex: "now - ts > ttl" by auto
    from dc in1 ks have "(ts, x) = (t0, VRef s)" by (meson eq_key_imp_eq_value)
    with ex age show False by simp
  qed
  have pc: "?c = filter (\<lambda>kv. fst kv \<notin> fst ` set (filter (\<lambda>(key, (ts, _)). now - ts > ttl) c1)) c1"
    using ttl by (simp add: ph_purge_expired_def fold_od_pop Let_def)
  have d: "distinct (map fst ?c)" unfolding pc using dc by (simp add: distinct_map_filter)
  have "(k, (t0, VRef s)) \<in> set ?c" unfolding pc using ks exp by simp
  with d have mc: "map_of ?c k = Some (t0, VRef s)" by simp
  let ?c2 = "od_pop k ?c @ [(k, (t0, VRef s))]"
  have g: "ph_cache_get ttl now (h', c1) k = Inr (VRef (length h'), h' @ [ODict kvs], ?c2)"
    using ttl mc s by (simp add: ph_cache_get_def Let_def dict_copy_def od_move_to_end_def)
  have nk: "k \<notin> fst ` set (od_pop k ?c)" by (rule key_notin_od_pop)
  have d2: "distinct (map fst ?c2)" using distinct_od_pop[OF d, of k] nk by auto
  have "map_of ?c2 k = Some (t0, VRef s)" using nk by (rule map_of_snoc_fresh)
  with g d2 show ?thesis by blast
qed

text \<open>
  Claim C6, as stated, fails for the upstream-record cache: ph.py copies with \<open>dict(...)\<close>,
  which shares the values of the entries. A dict holding a list is stored and read back; the
  list, reached through the returned dict, is appended to; the next read returns a dict that
  holds the longer list.
\<close>

theorem ph_cache_shares_nested_values_counterexample:
  "ph_cache_set 10 64 0 ([OList [VInt 1], ODict [(ustr ''a'', VRef 0)]], []) (ustr ''7'') (VRef 1)
     = Inr ([OList [VInt 1], ODict [(ustr ''a'', VRef 0)], ODict [(ustr ''a'', VRef 0)]],
            [(ustr ''7'', (0, VRef 2))])
   \<and> ph_cache_get 10 1
        ([OList [VInt 1], ODict [(ustr ''a'', VRef 0)], ODict [(ustr ''a'', VRef 0)]],
         [(ustr ''7'', (0, VRef 2))]) (ustr ''7'')
     = Inr (VRef 3,
            [OList [VInt 1], ODict [(ustr ''a'', VRef 0)], ODict [(ustr ''a'', VRef 0)],
             ODict [(ustr ''a'', VRef 0)]],
            [(ustr ''7'', (0, VRef 2))])
   \<and> addrs 4 [OList [VInt 1], ODict [(ustr ''a'', VRef 0)], ODict [(ustr ''a'', VRef 0)],
               ODict [(ustr ''a'', VRef 0)]] (VRef 3) = [3, 0]
   \<and> reify 4 [OList [VInt 1], ODict [(ustr ''a'', VRef 0)], ODict [(ustr ''a'', VRef 0)],
               ODict [(ustr ''a'', VRef 0)]] (VRef 3)
     = Some (NodeD [(ustr ''a'', NodeL [Leaf (VInt 1)])])
   \<and> ph_cache_get 10 2
        ([OList [VInt 1], ODict [(ustr ''a'', VRef 0)], ODict [(ustr ''a'', VRef 0)],
          ODict [(ustr ''a'', VRef 0)]] [0 := OList [VInt 1, VInt 2]],
         [(ustr ''7'', (0, VRef 2))]) (ustr ''7'')
     = Inr (VRef 4,
            [OList [VInt 1, VInt 2], ODict [(ustr ''a'', VRef 0)], ODict [(ustr ''a'', VRef 0)],
             ODict [(ustr ''a'', VRef 0)], ODict [(ustr ''a'', VRef 0)]],
            [(ustr ''7'', (0, VRef 2))])
   \<and> reify 5 [OList [VInt 1, VInt 2], ODict [(ustr ''a'', VRef 0)], ODict [(ustr ''a'', VRef 0)],
               ODict [(ustr ''a'', VRef 0)], ODict [(ustr ''a'', VRef 0)]] (VRef 4)
     = Some (NodeD [(ustr ''a'', NodeL [Leaf (VInt 1), Leaf (VInt 2)])])"
  by (simp add: ph_cache_set_def ph_cache_get_def ph_cache_store_def ph_purge_expired_def
      od_pop_def od_move_to_end_def dict_copy_def ph_evict.simps ustr_def
      eval_nat_numeral)

text \<open>
  Claim C6, amended. The tabular-source cache (tv.py, \<open>deepcopy\<close>): a value that is a finite
  tree, once set, is read back within the time to live as a structure equal to it made of
  new objects only, and whatever is done to any object reached from the returned value, a
  later read returns the same structure again. The upstream-record cache (ph.py,
  \<open>dict(...)\<close>): a dict, once set, is read back as a new dict object holding the entries the
  dict had when it was set, and whatever is done to the returned dict object itself, a later
  read returns a new dict with those entries again; the values of the entries are shared
  with the cache, not copied.
\<close>

theorem cache_returns_copies:
  "(0 < ttl \<and> reify (length h) h v = Some t \<longrightarrow>
      (\<exists>h1 d. tv_cache_set ttl t0 (h, c) k v = Inr (h1, AList.update k (t0, d) c)
         \<and> (\<forall>h' now. agree (length h) (length h1) h1 h' \<and> now - t0 \<le> ttl \<longrightarrow>
              (\<exists>h2 r. tv_cache_get ttl now (h', AList.update k (t0, d) c) k
                          = Inr (r, h2, AList.update k (t0, d) c)
                 \<and> reify (length h2) h2 r = Some t
                 \<and> set (addrs (length h2) h2 r) \<subseteq> {length h' ..< length h2}
                 \<and> (\<forall>b x now'. b \<in> set (addrs (length h2) h2 r) \<and> now' - t0 \<le> ttl \<longrightarrow>
                      (\<exists>h3 r'. tv_cache_get ttl now' (h2[b := x], AList.update k (t0, d) c) k
                                  = Inr (r', h3, AList.update k (t0, d) c)
                         \<and> reify (length h3) h3 r' = Some t))))))
   \<and> (0 < ttl \<and> distinct (map fst pc) \<and> a < length h \<and> h ! a = ODict kvs \<longrightarrow>
      (\<exists>c1. ph_cache_set ttl mx t0 (h, pc) k (VRef a) = Inr (h @ [ODict kvs], c1)
         \<and> (\<forall>h' now. agree (length h) (Suc (length h)) (h @ [ODict kvs]) h' \<and> now - t0 \<le> ttl \<longrightarrow>
              (\<exists>c2. ph_cache_get ttl now (h', c1) k
                        = Inr (VRef (length h'), h' @ [ODict kvs], c2)
                 \<and> (\<forall>x now'. now' - t0 \<le> ttl \<longrightarrow>
                      (\<exists>c3. ph_cache_get ttl now' ((h' @ [ODict kvs])[length h' := x], c2) k
                                = Inr (VRef (Suc (length h')),
                                       (h' @ [ODict kvs])[length h' := x] @ [ODict kvs], c3)))))))"
proof (intro conjI impI)
  assume "0 < ttl \<and> reify (length h) h v = Some t"
  then have ttl: "0 < ttl" and rv: "reify (length h) h v = Some t" by simp_all
  from rv have w: "wf_tree t" by (rule reify_wf(1))
  from tv_set_stores_copy[OF ttl rv, of t0 c k] obtain h1 d
    where s: "tv_cache_set ttl t0 (h, c) k v = Inr (h1, AList.update k (t0, d) c)"
      and b: "build t h = (h1, d)" by blast
  let ?c1 = "AList.update k (t0, d) c"
  have m: "map_of ?c1 k = Some (t0, d)" by (simp add: update_conv')
  have "\<exists>h2 r. tv_cache_get ttl now (h', ?c1) k = Inr (r, h2, ?c1)
                 \<and> reify (length h2) h2 r = Some t
                 \<and> set (addrs (length h2) h2 r) \<subseteq> {length h' ..< length h2}
                 \<and> (\<forall>b x now'. b \<in> set (addrs (length h2) h2 r) \<and> now' - t0 \<le> ttl \<longrightarrow>
                      (\<exists>h3 r'. tv_cache_get ttl now' (h2[b := x], ?c1) k = Inr (r', h3, ?c1)
                         \<and> reify (length h3) h3 r' = Some t))"
    if h': "agree (length h) (length h1) h1 h' \<and> now - t0 \<le> ttl" for h' now
  proof -
    from h' have ag: "agree (length h) (length h1) h1 h'" and age: "now - t0 \<le> ttl" by simp_all
    from tv_get_stored[OF ttl b w ag age m] obtain h2 r
      where g: "tv_cache_get ttl now (h', ?c1) k = Inr (r, h2, ?c1)"
        and r: "reify (length h2) h2 r = Some t"
        and f: "set (addrs (length h2) h2 r) \<subseteq> {length h' ..< length h2}"
        and ag2: "agree (length h) (length h1) h1 h2" by blast
    have "\<exists>h3 r'. tv_cache_get ttl now' (h2[b := x], ?c1) k = Inr (r', h3, ?c1)
                         \<and> reify (length h3) h3 r' = Some t"
      if bx: "b \<in> set (addrs (length h2) h2 r) \<and> now' - t0 \<le> ttl" for b x now'
    proof -
      from bx f have "length h' \<le> b" by auto
      moreover from ag have "length h1 \<le> length h'" by (simp add: agree_def)
      ultimately have "length h1 \<le> b" by simp
      with ag2 have "agree (length h) (length h1) h1 (h2[b := x])" by (rule agree_update)
      from tv_get_stored[OF ttl b w this _ m, of now'] bx show ?thesis by blast
    qed
    with g r f show ?thesis by blast
  qed
  with s show "\<exists>h1 d. tv_cache_set ttl t0 (h, c) k v = Inr (h1, AList.update k (t0, d) c)
         \<and> (\<forall>h' now. agree (length h) (length h1) h1 h' \<and> now - t0 \<le> ttl \<longrightarrow>
              (\<exists>h2 r. tv_cache_get ttl now (h', AList.update k (t0, d) c) k
                          = Inr (r, h2, AList.update k (t0, d) c)
                 \<and> reify (length h2) h2 r = Some t
                 \<and> set (addrs (length h2) h2 r) \<subseteq> {length h' ..< length h2}
                 \<and> (\<forall>b x now'. b \<in> set (addrs (length h2) h2 r) \<and> now' - t0 \<le> ttl \<longrightarrow>
                      (\<exists>h3 r'. tv_cache_get ttl now' (h2[b := x], AList.update k (t0, d) c) k
                                  = Inr (r', h3, AList.update k (t0, d) c)
                         \<and> reify (length h3) h3 r' = Some t))))"
    by blast
next
  assume "0 < ttl \<and> distinct (map fst pc) \<and> a < length h \<and> h ! a = ODict kvs"
  then have ttl: "0 < ttl" and dc: "distinct (map fst pc)" and a: "a < length h" "h ! a = ODict kvs"
    by simp_all
  from ph_set_stores_copy[OF ttl dc a, of mx t0 k] obtain c1
    where s: "ph_cache_set ttl mx t0 (h, pc) k (VRef a) = Inr (h @ [ODict kvs], c1)"
      and d1: "distinct (map fst c1)" and m1: "map_of c1 k = Some (t0, VRef (length h))" by blast
  have "\<exists>c2. ph_cache_get ttl now (h', c1) k = Inr (VRef (length h'), h' @ [ODict kvs], c2)
                 \<and> (\<forall>x now'. now' - t0 \<le> ttl \<longrightarrow>
                      (\<exists>c3. ph_cache_get ttl now' ((h' @ [ODict kvs])[length h' := x], c2) k
                                = Inr (VRef (Suc (length h')),
                                       (h' @ [ODict kvs])[length h' := x] @ [ODict kvs], c3)))"
    if h': "agree (length h) (Suc (length h)) (h @ [ODict kvs]) h' \<and> now - t0 \<le> ttl" for h' now
  proof -
    from h' have ag: "agree (length h) (Suc (length h)) (h @ [ODict kvs]) h'"
      and age: "now - t0 \<le> ttl" by simp_all
    from agree_snoc[OF ag] have lt: "length h < length h'" and at: "h' ! length h = ODict kvs"
      by simp_all
    from ph_get_stored[OF ttl d1 m1 age lt at] obtain c2
      where g: "ph_cache_get ttl now (h', c1) k = Inr (VRef (length h'), h' @ [ODict kvs], c2)"
        and d2: "distinct (map fst c2)" and m2: "map_of c2 k = Some (t0, VRef (length h))" by blast
    have "\<exists>c3. ph_cache_get ttl now' ((h' @ [ODict kvs])[length h' := x], c2) k
                                = Inr (VRef (Suc (length h')),
                                       (h' @ [ODict kvs])[length h' := x] @ [ODict kvs], c3)"
      if age': "now' - t0 \<le> ttl" for x now'
    proof -
      let ?h = "(h' @ [ODict kvs])[length h' := x]"
      have l: "length ?h = Suc (length h')" by simp
      have lt': "length h < length ?h" using lt by simp
      have at': "?h ! length h = ODict kvs" using lt at by (simp add: nth_append)
      from ph_get_stored[OF ttl d2 m2 age' lt' at'] show ?thesis unfolding l by blast
    qed
    with g show ?thesis by blast
  qed
  with s show "\<exists>c1. ph_cache_set ttl mx t0 (h, pc) k (VRef a) = Inr (h @ [ODict kvs], c1)
         \<and> (\<forall>h' now. agree (length h) (Suc (length h)) (h @ [ODict kvs]) h' \<and> now - t0 \<le> ttl \<longrightarrow>
              (\<exists>c2. ph_cache_get ttl now (h', c1) k
                        = Inr (VRef (length h'), h' @ [ODict kvs], c2)
                 \<and> (\<forall>x now'. now' - t0 \<le> ttl \<longrightarrow>
                      (\<exists>c3. ph_cache_get ttl now' ((h' @ [ODict kvs])[length h' := x], c2) k
                                = Inr (VRef (Suc (length h')),
                                       (h' @ [ODict kvs])[length h' := x] @ [ODict kvs], c3)))))"
    by blast
qed

theorem cache_returns_copies_witness:
  "(0::real) < 45
   \<and> reify (length [OList [VStr (ustr ''x'')], OList [VRef 0]])
        [OList [VStr (ustr ''x'')], OList [VRef 0]] (VRef 1)
      = Some (NodeL [NodeL [Leaf (VStr (ustr ''x''))]])
   \<and> (\<exists>h1 d. tv_cache_set 45 0 ([OList [VStr (ustr ''x'')], OList [VRef 0]], []) (ustr ''matrix'') (VRef 1)
                = Inr (h1, AList.update (ustr ''matrix'') (0, d) [])
         \<and> (\<exists>h2 r. tv_cache_get 45 1 (h1, AList.update (ustr ''matrix'') (0, d) []) (ustr ''matrix'')
                      = Inr (r, h2, AList.update (ustr ''matrix'') (0, d) [])
               \<and> reify (length h2) h2 r = Some (NodeL [NodeL [Leaf (VStr (ustr ''x''))]])))
   \<and> distinct (map fst ([] :: ph_cache))
   \<and> (0::nat) < length [ODict [(ustr ''ID'', VStr (ustr ''7''))]]
   \<and> [ODict [(ustr ''ID'', VStr (ustr ''7''))]] ! 0 = ODict [(ustr ''ID'', VStr (ustr ''7''))]
   \<and> (\<exists>c1. ph_cache_set 45 64 0 ([ODict [(ustr ''ID'', VStr (ustr ''7''))]], []) (ustr ''7'') (VRef 0)
              = Inr ([ODict [(ustr ''ID'', VStr (ustr ''7''))]] @ [ODict [(ustr ''ID'', VStr (ustr ''7''))]], c1))"
proof -
  let ?H = "[OList [VStr (ustr ''x'')], OList [VRef 0]]"
  let ?T = "NodeL [NodeL [Leaf (VStr (ustr ''x''))]]"
  let ?K = "ustr ''matrix''"
  let ?P = "[ODict [(ustr ''ID'', VStr (ustr ''7''))]]"
  let ?kvs = "[(ustr ''ID'', VStr (ustr ''7''))]"
  have t: "(0::real) < 45" by simp
  have r: "reify (length ?H) ?H (VRef 1) = Some ?T" by (simp add: eval_nat_numeral)
  have p: "distinct (map fst ([] :: ph_cache))" "(0::nat) < length ?P" "?P ! 0 = ODict ?kvs"
    by simp_all
  note tvp = cache_returns_copies[of 45 ?H "VRef 1" ?T 0 "[]" ?K, THEN conjunct1]
  from t r have "0 < (45::real) \<and> reify (length ?H) ?H (VRef 1) = Some ?T" by blast
  with tvp obtain h1 d
    where s: "tv_cache_set 45 0 (?H, []) ?K (VRef 1) = Inr (h1, AList.update ?K (0, d) [])"
      and g: "\<forall>h' now. agree (length ?H) (length h1) h1 h' \<and> now - 0 \<le> (45::real) \<longrightarrow>
              (\<exists>h2 r. tv_cache_get 45 now (h', AList.update ?K (0, d) []) ?K
                          = Inr (r, h2, AList.update ?K (0, d) [])
                 \<and> reify (length h2) h2 r = Some ?T
                 \<and> set (addrs (length h2) h2 r) \<subseteq> {length h' ..< length h2}
                 \<and> (\<forall>b x now'. b \<in> set (addrs (length h2) h2 r) \<and> now' - 0 \<le> (45::real) \<longrightarrow>
                      (\<exists>h3 r'. tv_cache_get 45 now' (h2[b := x], AList.update ?K (0, d) []) ?K
                                  = Inr (r', h3, AList.update ?K (0, d) [])
                         \<and> reify (length h3) h3 r' = Some ?T)))"
    by blast
  have "agree (length ?H) (length h1) h1 h1 \<and> (1::real) - 0 \<le> 45"
    using agree_refl[of "length ?H" h1] by simp
  with g obtain h2 r' where g1: "tv_cache_get 45 1 (h1, AList.update ?K (0, d) []) ?K
                          = Inr (r', h2, AList.update ?K (0, d) [])"
    "reify (length h2) h2 r' = Some ?T"
    by blast
  note php = cache_returns_copies[of 45 ?P _ _ 0 _ "ustr ''7''" "[]" 0 ?kvs 64, THEN conjunct2]
  from t p have "0 < (45::real) \<and> distinct (map fst ([] :: ph_cache)) \<and> 0 < length ?P \<and> ?P ! 0 = ODict ?kvs"
    by blast
  with php obtain c1 where ps: "ph_cache_set 45 64 0 (?P, []) (ustr ''7'') (VRef 0) = Inr (?P @ [ODict ?kvs], c1)"
    by blast
  from t r s g1 p ps show ?thesis by blast
qed

section \<open>The upstream lookup\<close>

lemma req_attempts_find:
  "req_attempts up p ms =
     (case find (\<lambda>m. parsed_200 (up m p) \<noteq> None) ms of
        None \<Rightarrow> JNull
      | Some m \<Rightarrow> (case parsed_200 (up m p) of None \<Rightarrow> JNull | Some j \<Rightarrow> j))"
  by (induction ms) (auto simp: parsed_200_def split: http_outcome.splits option.splits)

lemma consulta_payloads_find:
  "consulta_payloads R up ida ps =
     (case find (\<lambda>p. usable R (req_masiva up p)) ps of
        None \<Rightarrow> JNull
      | Some p \<Rightarrow> pick_record R ida (req_masiva up p))"
proof (induction ps)
  case Nil
  then show ?case by simp
next
  case (Cons p ps)
  show ?case
  proof (cases "usable R (req_masiva up p)")
    case True
    then have t: "truthy (req_masiva up p)" "\<not> code_rejected R (req_masiva up p)"
      and ne: "iter_records (req_masiva up p) \<noteq> []" by (simp_all add: usable_def)
    from ne obtain r rs where rs: "iter_records (req_masiva up p) = r # rs"
      by (cases "iter_records (req_masiva up p)") auto
    show ?thesis using True t rs
      by (auto simp: Let_def pick_record_def split: option.splits)
  next
    case False
    then have "consulta_payloads R up ida (p # ps) = consulta_payloads R up ida ps"
      by (auto simp: Let_def usable_def find_None_iff split: option.splits list.splits)
    with False Cons show ?thesis by simp
  qed
qed

lemma dict_copy_new:
  "dict_copy (h @ [ODict kvs]) (VRef (length h)) = Inr (h @ [ODict kvs, ODict kvs], VRef (Suc (length h)))"
  by (simp add: dict_copy_def)

lemma ph_cache_set_new_dict:
  "\<exists>st2. ph_cache_set ttl mx now (h @ [ODict kvs], c) key (VRef (length h)) = Inr st2"
  by (simp add: ph_cache_set_def ph_cache_store_def dict_copy_new Let_def)

lemma or_empty_chain: "or_empty (py_or a (py_or b (JStr []))) = py_or a (py_or b (JStr []))"
  by (simp add: or_empty_def py_or_def)

lemma parse_product_flags_raises:
  "(\<exists>e. parse_product_flags U x = Inl e) \<longleftrightarrow> \<not> is_str (or_empty x)"
  "parse_product_flags U x = Inl e \<Longrightarrow> e = AttributeError"
  by (auto simp: parse_product_flags_def is_str_def Let_def split: json.splits)

lemma method_strip_raises:
  "(\<exists>e. method_strip U x = Inl e) \<longleftrightarrow> \<not> is_str x"
  "method_strip U x = Inl e \<Longrightarrow> e = AttributeError"
  by (auto simp: method_strip_def is_str_def split: json.splits)

lemma is_str_or_empty_mail:
  "is_str (or_empty (py_or x (JStr s))) \<longleftrightarrow> is_str (or_empty x)"
  by (auto simp: or_empty_def py_or_def is_str_def truthy_def)

lemma transformar_desde_masiva_raises:
  "transformar_desde_masiva U R E rec = Inl e \<longleftrightarrow>
     e = AttributeError
     \<and> (\<not> is_str (py_or (json_get rec (ustr ''Television'')) (py_or (json_get rec (ustr ''Productos'')) (JStr [])))
        \<or> \<not> is_str (py_or (json_get rec (ustr ''Estado'')) (py_or (json_get rec (ustr ''estado'')) (JStr [])))
        \<or> \<not> is_str (or_empty (json_get rec (ustr ''Email''))))"
proof -
  let ?tv = "py_or (json_get rec (ustr ''Television'')) (py_or (json_get rec (ustr ''Productos'')) (JStr []))"
  let ?es = "py_or (json_get rec (ustr ''Estado'')) (py_or (json_get rec (ustr ''estado'')) (JStr []))"
  let ?ml = "or_empty (py_or (json_get rec (ustr ''Email'')) (JStr (extraer_mail U R E rec)))"
  have 1: "(\<exists>e. parse_product_flags U ?tv = Inl e) \<longleftrightarrow> \<not> is_str ?tv"
    using parse_product_flags_raises(1)[of U ?tv] by (simp add: or_empty_chain)
  have 2: "(\<exists>e. method_strip U ?es = Inl e) \<longleftrightarrow> \<not> is_str ?es"
    by (rule method_strip_raises(1))
  have 3: "(\<exists>e. method_strip U ?ml = Inl e) \<longleftrightarrow> \<not> is_str (or_empty (json_get rec (ustr ''Email'')))"
    using method_strip_raises(1)[of U ?ml] by (simp add: is_str_or_empty_mail)
  show ?thesis
  proof (cases "parse_product_flags U ?tv")
    case (Inl a)
    with 1 have "\<not> is_str ?tv" by blast
    moreover from Inl have "a = AttributeError" by (rule parse_product_flags_raises(2))
    moreover from Inl have "transformar_desde_masiva U R E rec = Inl a"
      by (simp add: transformar_desde_masiva_def Let_def)
    ultimately show ?thesis by auto
  next
    case (Inr flags)
    with 1 have tv: "is_str ?tv" by auto
    show ?thesis
    proof (cases "method_strip U ?es")
      case (Inl a)
      with 2 have "\<not> is_str ?es" by blast
      moreover from Inl have "a = AttributeError" by (rule method_strip_raises(2))
      moreover from Inl Inr have "transformar_desde_masiva U R E rec = Inl a"
        by (simp add: transformar_desde_masiva_def Let_def)
      ultimately show ?thesis by auto
    next
      case es: (Inr estado_txt)
      with 2 have es': "is_str ?es" by auto
      show ?thesis
      proof (cases "method_strip U ?ml")
        case (Inl a)
        with 3 have "\<not> is_str (or_empty (json_get rec (ustr ''Email'')))" by blast
        moreover from Inl have "a = AttributeError" by (rule method_strip_raises(2))
        moreover from Inl Inr es have "transformar_desde_masiva U R E rec = Inl a"
          by (simp add: transformar_desde_masiva_def Let_def)
        ultimately show ?thesis by auto
      next
        case ml: (Inr mail_txt)
        with 3 have "is_str (or_empty (json_get rec (ustr ''Email'')))" by auto
        moreover from ml Inr es have "\<exists>entries. transformar_desde_masiva U R E rec = Inr entries"
          by (simp add: transformar_desde_masiva_def Let_def)
        ultimately show ?thesis using tv es' by auto
      qed
    qed
  qed
qed

text \<open>
  Claim C1, as stated, fails: the three attempts do not stop at the first response with
  status 200. When the body of that response cannot be parsed, \<open>_json\<close> raises inside the
  \<open>try\<close> and the next attempt is made. Here the JSON POST is answered with status 200 and a
  body that is not JSON; stopping there would leave every payload without data, yet the
  record of the form POST is returned.
\<close>

theorem req_masiva_goes_on_after_unparseable_200_counterexample:
  "upstream_html_then_json PostJson
      [(ustr ''token'', JStr (ustr ''t'')), (ustr ''ID_Desde'', JInt 7), (ustr ''ID_Hasta'', JInt 7)]
     = Response 200 None
   \<and> spec_req_attempts upstream_html_then_json
        [(ustr ''token'', JStr (ustr ''t'')), (ustr ''ID_Desde'', JInt 7), (ustr ''ID_Hasta'', JInt 7)]
        [PostJson, PostForm, GetQuery] = JNull
   \<and> req_masiva upstream_html_then_json
        [(ustr ''token'', JStr (ustr ''t'')), (ustr ''ID_Desde'', JInt 7), (ustr ''ID_Hasta'', JInt 7)]
      = JList [JDict [(ustr ''ID'', JInt 7)]]
   \<and> req_masiva upstream_html_then_json
        [(ustr ''token'', JStr (ustr ''t'')), (ustr ''ID_Desde'', JInt 7), (ustr ''ID_Hasta'', JInt 7)]
      \<noteq> spec_req_attempts upstream_html_then_json
        [(ustr ''token'', JStr (ustr ''t'')), (ustr ''ID_Desde'', JInt 7), (ustr ''ID_Hasta'', JInt 7)]
        [PostJson, PostForm, GetQuery]
   \<and> consulta_masiva_por_id repr_empty upstream_html_then_json (Inr (ustr ''t'')) 7
      = Inr (JDict [(ustr ''ID'', JInt 7)])
   \<and> consultar_y_transformar_masiva ucd_excerpt repr_empty email_search_none 180 64
        upstream_html_then_json (Inr (ustr ''t'')) 0 0 ([], []) 7
      = Inr (VRef 0,
             [ODict [(ustr ''ID'', VStr (ustr ''7'')), (ustr ''Nombre'', VStr []), (ustr ''DNI'', VStr []),
                     (ustr ''Mail'', VStr []), (ustr ''Contrasena'', VStr []), (ustr ''TV'', VBool False),
                     (ustr ''HBO'', VBool False), (ustr ''Pack Futbol'', VBool False),
                     (ustr ''Estado'', VStr []), (ustr ''EstadoCode'', VStr (ustr ''desconocido'')),
                     (ustr ''_via'', VStr (ustr ''masiva''))],
              ODict [(ustr ''ID'', VStr (ustr ''7'')), (ustr ''Nombre'', VStr []), (ustr ''DNI'', VStr []),
                     (ustr ''Mail'', VStr []), (ustr ''Contrasena'', VStr []), (ustr ''TV'', VBool False),
                     (ustr ''HBO'', VBool False), (ustr ''Pack Futbol'', VBool False),
                     (ustr ''Estado'', VStr []), (ustr ''EstadoCode'', VStr (ustr ''desconocido'')),
                     (ustr ''_via'', VStr (ustr ''masiva''))]],
             [(ustr ''7'', (0, VRef 1))])"
  by code_simp

text \<open>
  Claim C1, amended. On a cache miss the four payloads are tried in order, each as a JSON
  POST, then a form POST, then a GET, up to the first response that has status 200 and a
  body that parses. The first payload whose response is data (not empty, not a dict with a
  \<open>code\<close> other than 200 or OK, and holding a record) decides: the record taken is the first
  whose \<open>ID\<close> or \<open>IDA\<close> is the requested id, else the first record. When no payload gives such
  a response the call fails with the error that no data was returned. A record that is not
  empty is handed to \<open>transformar_desde_masiva\<close>: when that raises, the exception leaves the
  call and nothing is cached; when it returns, its result is stored in the cache and
  returned. It raises, with \<open>AttributeError\<close>, exactly when the value taken for the products,
  for the state or for the e-mail is not a string.
\<close>

theorem consultar_y_transformar_masiva_negotiation:
  "req_masiva up p =
     (case find (\<lambda>m. parsed_200 (up m p) \<noteq> None) [PostJson, PostForm, GetQuery] of
        None \<Rightarrow> JNull
      | Some m \<Rightarrow> (case parsed_200 (up m p) of None \<Rightarrow> JNull | Some j \<Rightarrow> j))
   \<and> consulta_masiva_por_id R up (Inr token) ida =
       Inr (case find (\<lambda>p. usable R (req_masiva up p)) (payloads token ida) of
              None \<Rightarrow> JNull
            | Some p \<Rightarrow> pick_record R ida (req_masiva up p))
   \<and> (ph_cache_get ttl now1 st (str_int ida) = Inr (VNone, st1) \<longrightarrow>
        ((\<forall>p \<in> set (payloads token ida). \<not> usable R (req_masiva up p)) \<longrightarrow>
           consultar_y_transformar_masiva U R E ttl mx up (Inr token) now1 now2 st ida
             = Inl no_data_error)
        \<and> (\<forall>rec. consulta_masiva_por_id R up (Inr token) ida = Inr rec \<and> truthy rec \<longrightarrow>
             (\<forall>e. transformar_desde_masiva U R E rec = Inl e \<longrightarrow>
                consultar_y_transformar_masiva U R E ttl mx up (Inr token) now1 now2 st ida = Inl e)
             \<and> (\<forall>entries. transformar_desde_masiva U R E rec = Inr entries \<longrightarrow>
                  (\<exists>st2. ph_cache_set ttl mx now2 (fst st1 @ [ODict entries], snd st1) (str_int ida)
                            (VRef (length (fst st1))) = Inr st2
                     \<and> consultar_y_transformar_masiva U R E ttl mx up (Inr token) now1 now2 st ida
                         = Inr (VRef (length (fst st1)), st2)))))
   \<and> (transformar_desde_masiva U R E rec0 = Inl e0 \<longleftrightarrow>
        e0 = AttributeError
        \<and> (\<not> is_str (py_or (json_get rec0 (ustr ''Television''))
                        (py_or (json_get rec0 (ustr ''Productos'')) (JStr [])))
           \<or> \<not> is_str (py_or (json_get rec0 (ustr ''Estado''))
                          (py_or (json_get rec0 (ustr ''estado'')) (JStr [])))
           \<or> \<not> is_str (or_empty (json_get rec0 (ustr ''Email'')))))"
proof (intro conjI impI allI)
  show "req_masiva up p =
     (case find (\<lambda>m. parsed_200 (up m p) \<noteq> None) [PostJson, PostForm, GetQuery] of
        None \<Rightarrow> JNull
      | Some m \<Rightarrow> (case parsed_200 (up m p) of None \<Rightarrow> JNull | Some j \<Rightarrow> j))"
    unfolding req_masiva_def by (rule req_attempts_find)
  show c: "consulta_masiva_por_id R up (Inr token) ida =
       Inr (case find (\<lambda>p. usable R (req_masiva up p)) (payloads token ida) of
              None \<Rightarrow> JNull
            | Some p \<Rightarrow> pick_record R ida (req_masiva up p))"
    by (simp add: consulta_masiva_por_id_def consulta_payloads_find)
  show "transformar_desde_masiva U R E rec0 = Inl e0 \<longleftrightarrow>
        e0 = AttributeError
        \<and> (\<not> is_str (py_or (json_get rec0 (ustr ''Television''))
                        (py_or (json_get rec0 (ustr ''Productos'')) (JStr [])))
           \<or> \<not> is_str (py_or (json_get rec0 (ustr ''Estado''))
                          (py_or (json_get rec0 (ustr ''estado'')) (JStr [])))
           \<or> \<not> is_str (or_empty (json_get rec0 (ustr ''Email''))))"
    by (rule transformar_desde_masiva_raises)
  {
    assume miss: "ph_cache_get ttl now1 st (str_int ida) = Inr (VNone, st1)"
      and none: "\<forall>p \<in> set (payloads token ida). \<not> usable R (req_masiva up p)"
    from none have "find (\<lambda>p. usable R (req_masiva up p)) (payloads token ida) = None"
      by (simp add: find_None_iff)
    with c have "consulta_masiva_por_id R up (Inr token) ida = Inr JNull" by simp
    with miss show "consultar_y_transformar_masiva U R E ttl mx up (Inr token) now1 now2 st ida
             = Inl no_data_error"
      by (simp add: consultar_y_transformar_masiva_def Let_def truthy_def)
  }
  {
    fix rec e
    assume miss: "ph_cache_get ttl now1 st (str_int ida) = Inr (VNone, st1)"
      and r: "consulta_masiva_por_id R up (Inr token) ida = Inr rec \<and> truthy rec"
      and t: "transformar_desde_masiva U R E rec = Inl e"
    then show "consultar_y_transformar_masiva U R E ttl mx up (Inr token) now1 now2 st ida = Inl e"
      by (simp add: consultar_y_transformar_masiva_def Let_def)
  }
  {
    fix rec entries
    assume miss: "ph_cache_get ttl now1 st (str_int ida) = Inr (VNone, st1)"
      and r: "consulta_masiva_por_id R up (Inr token) ida = Inr rec \<and> truthy rec"
      and t: "transformar_desde_masiva U R E rec = Inr entries"
    obtain st2 where s: "ph_cache_set ttl mx now2 (fst st1 @ [ODict entries], snd st1) (str_int ida)
                       (VRef (length (fst st1))) = Inr st2"
      using ph_cache_set_new_dict by blast
    with miss r t have "consultar_y_transformar_masiva U R E ttl mx up (Inr token) now1 now2 st ida
                    = Inr (VRef (length (fst st1)), st2)"
      by (simp add: consultar_y_transformar_masiva_def Let_def)
    with s show "\<exists>st2. ph_cache_set ttl mx now2 (fst st1 @ [ODict entries], snd st1) (str_int ida)
                       (VRef (length (fst st1))) = Inr st2
                \<and> consultar_y_transformar_masiva U R E ttl mx up (Inr token) now1 now2 st ida
                    = Inr (VRef (length (fst st1)), st2)"
      by blast
  }
qed

theorem consultar_y_transformar_masiva_negotiation_witness:
  "ph_cache_get 180 0 ([], []) (str_int 7) = Inr (VNone, [], [])
   \<and> consultar_y_transformar_masiva ucd_excerpt repr_empty email_search_none 180 64 upstream_down
        (Inr (ustr ''t'')) 0 0 ([], []) 7 = Inl no_data_error
   \<and> consulta_masiva_por_id repr_empty upstream_html_then_json (Inr (ustr ''t'')) 7
      = Inr (JDict [(ustr ''ID'', JInt 7)])
   \<and> truthy (JDict [(ustr ''ID'', JInt 7)])
   \<and> (\<exists>entries st2.
         transformar_desde_masiva ucd_excerpt repr_empty email_search_none (JDict [(ustr ''ID'', JInt 7)])
           = Inr entries
         \<and> consultar_y_transformar_masiva ucd_excerpt repr_empty email_search_none 180 64
             upstream_html_then_json (Inr (ustr ''t'')) 0 0 ([], []) 7 = Inr (VRef 0, st2))
   \<and> consulta_masiva_por_id repr_empty upstream_estado_numerico (Inr (ustr ''t'')) 7
      = Inr (JDict [(ustr ''ID'', JInt 7), (ustr ''Estado'', JInt 1)])
   \<and> truthy (JDict [(ustr ''ID'', JInt 7), (ustr ''Estado'', JInt 1)])
   \<and> transformar_desde_masiva ucd_excerpt repr_empty email_search_none
        (JDict [(ustr ''ID'', JInt 7), (ustr ''Estado'', JInt 1)]) = Inl AttributeError
   \<and> consultar_y_transformar_masiva ucd_excerpt repr_empty email_search_none 180 64
        upstream_estado_numerico (Inr (ustr ''t'')) 0 0 ([], []) 7 = Inl AttributeError
   \<and> consulta_masiva_por_id repr_empty upstream_dos_abonados (Inr (ustr ''t'')) 7
      = Inr (JDict [(ustr ''IDA'', JStr (ustr ''7''))])
   \<and> consulta_masiva_por_id repr_empty upstream_dos_abonados (Inr (ustr ''t'')) 9
      = Inr (JDict [(ustr ''ID'', JInt 5)])"
proof -
  have two: "consulta_masiva_por_id repr_empty upstream_dos_abonados (Inr (ustr ''t'')) 7
      = Inr (JDict [(ustr ''IDA'', JStr (ustr ''7''))])"
    "consulta_masiva_por_id repr_empty upstream_dos_abonados (Inr (ustr ''t'')) 9
      = Inr (JDict [(ustr ''ID'', JInt 5)])"
    by code_simp+
  let ?r1 = "JDict [(ustr ''ID'', JInt 7)]"
  let ?r2 = "JDict [(ustr ''ID'', JInt 7), (ustr ''Estado'', JInt 1)]"
  have miss: "ph_cache_get 180 0 ([], []) (str_int 7) = Inr (VNone, [], [])"
    by (simp add: ph_cache_get_def ph_purge_expired_def)
  have down: "\<forall>p \<in> set (payloads (ustr ''t'') 7). \<not> usable repr_empty (req_masiva upstream_down p)"
    by (simp add: usable_def req_masiva_def upstream_down_def truthy_def)
  have rec1: "consulta_masiva_por_id repr_empty upstream_html_then_json (Inr (ustr ''t'')) 7 = Inr ?r1"
    by code_simp
  have tr1: "truthy ?r1" by (simp add: truthy_def)
  have rec2: "consulta_masiva_por_id repr_empty upstream_estado_numerico (Inr (ustr ''t'')) 7 = Inr ?r2"
    by code_simp
  have tr2: "truthy ?r2" by (simp add: truthy_def)
  obtain entries where en: "transformar_desde_masiva ucd_excerpt repr_empty email_search_none ?r1 = Inr entries"
    by (cases "transformar_desde_masiva ucd_excerpt repr_empty email_search_none ?r1")
      (simp_all add: transformar_desde_masiva_raises is_str_def py_or_def or_empty_def json_get_def
        truthy_def ustr_def)
  have ns: "\<not> is_str (py_or (json_get ?r2 (ustr ''Estado'')) (py_or (json_get ?r2 (ustr ''estado'')) (JStr [])))"
    by (simp add: is_str_def py_or_def json_get_def truthy_def ustr_def)
  note t0 = consultar_y_transformar_masiva_negotiation[of upstream_down _ repr_empty "ustr ''t''" 7
      180 0 "([], [])" "([], [])" ucd_excerpt email_search_none 64 0]
  note t1 = t0[THEN conjunct2, THEN conjunct2, THEN conjunct1, THEN mp, OF miss,
      THEN conjunct1, THEN mp, OF down]
  note u0 = consultar_y_transformar_masiva_negotiation[of upstream_html_then_json _ repr_empty "ustr ''t''" 7
      180 0 "([], [])" "([], [])" ucd_excerpt email_search_none 64 0]
  note u1 = u0[THEN conjunct2, THEN conjunct2, THEN conjunct1, THEN mp, OF miss,
      THEN conjunct2, THEN spec, of ?r1, THEN mp, OF conjI, OF rec1 tr1,
      THEN conjunct2, THEN spec, of entries, THEN mp, OF en]
  note v0 = consultar_y_transformar_masiva_negotiation[of upstream_estado_numerico _ repr_empty "ustr ''t''" 7
      180 0 "([], [])" "([], [])" ucd_excerpt email_search_none 64 0 ?r2 AttributeError]
  have raises: "transformar_desde_masiva ucd_excerpt repr_empty email_search_none ?r2 = Inl AttributeError"
    using v0[THEN conjunct2, THEN conjunct2, THEN conjunct2] ns by blast
  note v1 = v0[THEN conjunct2, THEN conjunct2, THEN conjunct1, THEN mp, OF miss,
      THEN conjunct2, THEN spec, of ?r2, THEN mp, OF conjI, OF rec2 tr2,
      THEN conjunct1, THEN spec, of AttributeError, THEN mp, OF raises]
  from u1 en have "\<exists>entries st2.
         transformar_desde_masiva ucd_excerpt repr_empty email_search_none ?r1 = Inr entries
         \<and> consultar_y_transformar_masiva ucd_excerpt repr_empty email_search_none 180 64
             upstream_html_then_json (Inr (ustr ''t'')) 0 0 ([], []) 7 = Inr (VRef 0, st2)"
    by auto
  with miss t1 rec1 tr1 rec2 tr2 raises v1 two show ?thesis by blast
qed

end
